theory Spec2Isabelle
  imports Main "HOL-Library.Sublist"
begin

section \<open>urlvalues: decoding URL values into struct fields\<close>

text \<open>
  A shallow embedding of the Go package \<open>urlvalues\<close>: the string helpers of the standard
  library it calls, the tag parser \<open>parseTag\<close>, the time parser \<open>parseTime\<close>, the
  coercion \<open>processField\<close>, the flattening \<open>extractFields\<close> and \<open>Unmarshal\<close>.
  Go strings are byte sequences, as \<^typ>\<open>string\<close> is.
\<close>

subsection \<open>Strings: \<open>strings.TrimSpace\<close>, \<open>Split\<close>, \<open>SplitN\<close>, \<open>Join\<close>\<close>

text \<open>
  \<open>spaceRunes\<close> lists the UTF-8 encodings of the runes for which \<open>unicode.IsSpace\<close> holds:
  the six ASCII ones, U+0085, U+00A0, U+1680, U+2000 to U+200A, U+2028, U+2029, U+202F,
  U+205F and U+3000. \<open>TrimSpace\<close> removes such runes from the front, then from the back.
  \<open>Split\<close> cuts at every occurrence of the separator, left to right, and \<open>SplitN\<close> stops
  after \<open>n\<close> pieces (the last piece is the unsplit rest). On the empty separator Go cuts
  after every UTF-8 sequence; the package never splits on it (\<open>Delim\<close> never returns it),
  and the model cuts after every byte there.
\<close>

definition spaceRunes :: "string list" where
  "spaceRunes =
    [[CHR 0x09], [CHR 0x0A], [CHR 0x0B], [CHR 0x0C], [CHR 0x0D], [CHR 0x20],
     [CHR 0xC2, CHR 0x85], [CHR 0xC2, CHR 0xA0],
     [CHR 0xE1, CHR 0x9A, CHR 0x80],
     [CHR 0xE2, CHR 0x80, CHR 0x80], [CHR 0xE2, CHR 0x80, CHR 0x81],
     [CHR 0xE2, CHR 0x80, CHR 0x82], [CHR 0xE2, CHR 0x80, CHR 0x83],
     [CHR 0xE2, CHR 0x80, CHR 0x84], [CHR 0xE2, CHR 0x80, CHR 0x85],
     [CHR 0xE2, CHR 0x80, CHR 0x86], [CHR 0xE2, CHR 0x80, CHR 0x87],
     [CHR 0xE2, CHR 0x80, CHR 0x88], [CHR 0xE2, CHR 0x80, CHR 0x89],
     [CHR 0xE2, CHR 0x80, CHR 0x8A],
     [CHR 0xE2, CHR 0x80, CHR 0xA8], [CHR 0xE2, CHR 0x80, CHR 0xA9],
     [CHR 0xE2, CHR 0x80, CHR 0xAF], [CHR 0xE2, CHR 0x81, CHR 0x9F],
     [CHR 0xE3, CHR 0x80, CHR 0x80]]"

function trimRunes :: "string list \<Rightarrow> string \<Rightarrow> string" where
  "trimRunes ps s =
     (case find (\<lambda>p. p \<noteq> [] \<and> prefix p s) ps of
        None \<Rightarrow> s
      | Some p \<Rightarrow> trimRunes ps (drop (length p) s))"
  by pat_completeness auto
termination
proof (relation "measure (\<lambda>(ps, s). length s)")
  show "wf (measure (\<lambda>(ps, s). length s))" by simp
next
  fix ps :: "string list" and s p :: string
  assume "find (\<lambda>p. p \<noteq> [] \<and> prefix p s) ps = Some p"
  then have "p \<noteq> []" and "prefix p s"
    by (auto simp: find_Some_iff)
  then have "s \<noteq> []" by auto
  with \<open>p \<noteq> []\<close> show "((ps, drop (length p) s), (ps, s)) \<in> measure (\<lambda>(ps, s). length s)"
    by simp
qed

declare trimRunes.simps [simp del]

definition TrimSpace :: "string \<Rightarrow> string" where
  "TrimSpace s = rev (trimRunes (map rev spaceRunes) (rev (trimRunes spaceRunes s)))"

function splitOn :: "string \<Rightarrow> string \<Rightarrow> string \<Rightarrow> string list" where
  "splitOn sep acc [] = [acc]"
| "splitOn sep acc (c # cs) =
     (if sep \<noteq> [] \<and> prefix sep (c # cs)
      then acc # splitOn sep [] (drop (length sep) (c # cs))
      else splitOn sep (acc @ [c]) cs)"
  by pat_completeness auto
termination
  by (relation "measure (\<lambda>(sep, acc, s). length s)") auto

definition Split :: "string \<Rightarrow> string \<Rightarrow> string list" where
  "Split s sep = (if sep = [] then map (\<lambda>c. [c]) s else splitOn sep [] s)"

function splitNOn :: "string \<Rightarrow> nat \<Rightarrow> string \<Rightarrow> string \<Rightarrow> string list" where
  "splitNOn sep n acc [] = [acc]"
| "splitNOn sep n acc (c # cs) =
     (if n \<le> 1 then [acc @ c # cs]
      else if sep \<noteq> [] \<and> prefix sep (c # cs)
      then acc # splitNOn sep (n - 1) [] (drop (length sep) (c # cs))
      else splitNOn sep n (acc @ [c]) cs)"
  by pat_completeness auto
termination
  by (relation "measure (\<lambda>(sep, n, acc, s). length s)") auto

definition SplitN :: "string \<Rightarrow> string \<Rightarrow> nat \<Rightarrow> string list" where
  "SplitN s sep n =
     (if n = 0 then []
      else if sep = [] then map (\<lambda>c. [c]) s
      else splitNOn sep n [] s)"

fun Join :: "string list \<Rightarrow> string \<Rightarrow> string" where
  "Join [] sep = []"
| "Join [x] sep = x"
| "Join (x # y # ys) sep = x @ sep @ Join (y # ys) sep"

definition asciiSpaces :: "char set" where
  "asciiSpaces = {CHR 0x09, CHR 0x0A, CHR 0x0B, CHR 0x0C, CHR 0x0D, CHR 0x20}"

definition trimmed :: "string \<Rightarrow> bool" where
  "trimmed s \<longleftrightarrow> s \<noteq> [] \<and> hd s \<notin> hd ` set spaceRunes \<and> last s \<notin> last ` set spaceRunes"

definition spaces :: "string \<Rightarrow> bool" where
  "spaces w \<longleftrightarrow> (\<exists>rs. set rs \<subseteq> set spaceRunes \<and> w = concat rs)"

definition coreStr :: "string \<Rightarrow> bool" where
  "coreStr s \<longleftrightarrow> TrimSpace s = s"

datatype kind =
    KBool | KInt | KInt8 | KInt16 | KInt32 | KInt64
  | KUint | KUint8 | KUint16 | KUint32 | KUint64
  | KFloat32 | KFloat64 | KString
  | KSlice | KMap | KPtr | KStruct | KOther

datatype gtype =
    Basic kind
  | SliceOf gtype
  | MapOf gtype gtype
  | PtrTo gtype
  | StructOf "structField list"
  | Named string string gtype
and structField =
    StructField (fldName: string) (fldExported: bool) (fldTag: string) (fldType: gtype)

datatype gerror =
    ErrInvalidStruct
  | ErrNoFields
  | ErrTagField string gerror
  | ErrWrapped gerror
  | ErrTagMissingValue string
  | ErrInvalidMapItem string
  | ErrNowFormat
  | ErrInvalidSign char
  | ErrNotInteger string
  | ErrInvalidIdent char
  | FieldError string gtype string gerror
  | ParseError string string gerror
  | ErrForeign string
  | Panic

record fieldOptions =
  key :: string
  defaultValue :: string
  layout :: string

definition noOptions :: fieldOptions where
  "noOptions = \<lparr>key = [], defaultValue = [], layout = []\<rparr>"

fun parseTagParts :: "nat \<Rightarrow> string list \<Rightarrow> fieldOptions \<Rightarrow> gerror + fieldOptions" where
  "parseTagParts i [] fOpts = Inr fOpts"
| "parseTagParts i (tagPart # rest) fOpts =
     (case SplitN tagPart '':'' 2 of
        [] \<Rightarrow> Inl Panic
      | [v0] \<Rightarrow>
          (let tagProp = TrimSpace v0
           in parseTagParts (Suc i) rest (if i = 0 then fOpts\<lparr>key := tagProp\<rparr> else fOpts))
      | [v0, v1] \<Rightarrow>
          (let tagProp = TrimSpace v0; tagPropVal = TrimSpace v1
           in if tagPropVal = [] then Inl (ErrTagMissingValue tagProp)
              else parseTagParts (Suc i) rest
                     (if tagProp = ''default'' then fOpts\<lparr>defaultValue := tagPropVal\<rparr>
                      else if tagProp = ''layout'' then fOpts\<lparr>layout := tagPropVal\<rparr>
                      else fOpts))
      | _ \<Rightarrow> parseTagParts (Suc i) rest fOpts)"

definition parseTag :: "string \<Rightarrow> gerror + fieldOptions" where
  "parseTag tagStr =
     (if tagStr = [] then Inr noOptions
      else parseTagParts 0 (Split tagStr '','') noOptions)"

definition emptyValueSegment :: "string \<Rightarrow> string \<Rightarrow> bool" where
  "emptyValueSegment seg name \<longleftrightarrow>
     (\<exists>ws. seg = name @ CHR '':'' # ws \<and> CHR '':'' \<notin> set name \<and> TrimSpace ws = [])"

datatype segment =
    KeySeg string string string
  | OptSeg string string string string string string

fun segText :: "segment \<Rightarrow> string" where
  "segText (KeySeg l n r) = l @ n @ r"
| "segText (OptSeg l n r l' v r') = l @ n @ r @ '':'' @ l' @ v @ r'"

fun segOK :: "segment \<Rightarrow> bool" where
  "segOK (KeySeg l n r) \<longleftrightarrow>
     spaces l \<and> spaces r \<and> coreStr n \<and> CHR '','' \<notin> set n \<and> CHR '':'' \<notin> set n"
| "segOK (OptSeg l n r l' v r') \<longleftrightarrow>
     spaces l \<and> spaces r \<and> coreStr n \<and> CHR '','' \<notin> set n \<and> CHR '':'' \<notin> set n \<and>
     spaces l' \<and> spaces r' \<and> coreStr v \<and> CHR '','' \<notin> set v"

fun segCore :: "segment \<Rightarrow> string \<times> string option" where
  "segCore (KeySeg l n r) = (n, None)"
| "segCore (OptSeg l n r l' v r') = (n, Some v)"

fun readOptions :: "nat \<Rightarrow> (string \<times> string option) list \<Rightarrow> fieldOptions \<Rightarrow> gerror + fieldOptions" where
  "readOptions i [] fOpts = Inr fOpts"
| "readOptions i ((n, None) # rest) fOpts =
     readOptions (Suc i) rest (if i = 0 then fOpts\<lparr>key := n\<rparr> else fOpts)"
| "readOptions i ((n, Some v) # rest) fOpts =
     (if v = [] then Inl (ErrTagMissingValue n)
      else readOptions (Suc i) rest
             (if n = ''default'' then fOpts\<lparr>defaultValue := v\<rparr>
              else if n = ''layout'' then fOpts\<lparr>layout := v\<rparr>
              else fOpts))"

subsection \<open>Values, and what the package takes from outside\<close>

text \<open>
  A \<open>reflect.Value\<close> is modelled by its type and a \<^emph>\<open>gval\<close>: a slice, a map and a pointer
  are \<open>None\<close> when nil; a map is an association list with distinct keys; a struct is the
  list of its field values; a float is kept as its bit pattern (\<open>math.Float64bits\<close>); a
  value of a kind the package does not look into is opaque, 0 standing for the zero value.
  A \<open>time.Time\<close> is the struct of its three fields.

  \<open>env\<close> collects what the package calls and does not define: the clock (one reading,
  \<open>time.Now\<close>), \<open>Time.AddDate\<close>, \<open>time.Parse\<close>, \<open>time.ParseDuration\<close>, the parsers of
  \<open>strconv\<close> (with the bit size they are given; the base is 0), and the
  \<open>UnmarshalText\<close> and \<open>UnmarshalBinary\<close> methods of the types that have them: a method gets
  the text and the value it is called on, and returns its error and the value it leaves.
\<close>

datatype gval =
    VBool bool
  | VInt int
  | VUint nat
  | VFloat nat
  | VString string
  | VSlice "gval list option"
  | VMap "(gval \<times> gval) list option"
  | VPtr "gval option"
  | VStruct "gval list"
  | VOpaque nat

record env =
  timeNow :: gval
  timeAddDate :: "gval \<Rightarrow> int \<Rightarrow> int \<Rightarrow> int \<Rightarrow> gval"
  timeParse :: "string \<Rightarrow> string \<Rightarrow> gerror + gval"
  timeParseDuration :: "string \<Rightarrow> gerror + int"
  strconvParseInt :: "string \<Rightarrow> nat \<Rightarrow> gerror + int"
  strconvParseUint :: "string \<Rightarrow> nat \<Rightarrow> gerror + nat"
  strconvParseBool :: "string \<Rightarrow> gerror + bool"
  strconvParseFloat :: "string \<Rightarrow> nat \<Rightarrow> gerror + nat"
  unmarshalText :: "gtype \<Rightarrow> (string \<Rightarrow> gval \<Rightarrow> gerror option \<times> gval) option"
  unmarshalBinary :: "gtype \<Rightarrow> (string \<Rightarrow> gval \<Rightarrow> gerror option \<times> gval) option"

subsection \<open>\<open>parseTime\<close> (time.go)\<close>

text \<open>
  \<open>Atoi\<close> is \<open>strconv.Atoi\<close> where \<open>int\<close> has 64 bits: an optional sign and one or more
  decimal digits, an error when the number does not fit. \<open>wrap64\<close> is the wrap-around of a
  product of two \<open>int\<close>s. \<open>nowReplacer\<close> is
  \<^verbatim>\<open>strings.NewReplacer("+", " +", "-", " -").Replace\<close>.
\<close>

definition isDigit :: "char \<Rightarrow> bool" where
  "isDigit c \<longleftrightarrow> c \<in> set ''0123456789''"

definition decimal :: "string \<Rightarrow> int" where
  "decimal ds = foldl (\<lambda>n c. n * 10 + (of_char c - 48)) 0 ds"

definition Atoi :: "string \<Rightarrow> gerror + int" where
  "Atoi s =
     (let neg = (s \<noteq> [] \<and> hd s = CHR ''-'');
          ds = (if s \<noteq> [] \<and> (hd s = CHR ''-'' \<or> hd s = CHR ''+'') then tl s else s)
      in if ds = [] \<or> \<not> list_all isDigit ds then Inl (ErrForeign ''strconv.Atoi: invalid syntax'')
         else if neg then
           (if decimal ds > 2 ^ 63 then Inl (ErrForeign ''strconv.Atoi: value out of range'')
            else Inr (- decimal ds))
         else
           (if decimal ds \<ge> 2 ^ 63 then Inl (ErrForeign ''strconv.Atoi: value out of range'')
            else Inr (decimal ds)))"

definition wrap64 :: "int \<Rightarrow> int" where
  "wrap64 x = (x + 2 ^ 63) mod 2 ^ 64 - 2 ^ 63"

definition nowReplacer :: "string \<Rightarrow> string" where
  "nowReplacer s =
     concat (map (\<lambda>c. if c = CHR ''+'' then '' +'' else if c = CHR ''-'' then '' -'' else [c]) s)"

fun parseNowParts :: "string list \<Rightarrow> int \<times> int \<times> int \<Rightarrow> gerror + int \<times> int \<times> int" where
  "parseNowParts [] (years, months, days) = Inr (years, months, days)"
| "parseNowParts (part # rest) (years, months, days) =
     (if length part < 3 then Inl ErrNowFormat
      else if hd part \<noteq> CHR ''+'' \<and> hd part \<noteq> CHR ''-'' then Inl (ErrInvalidSign (hd part))
      else
        (let sign = (if hd part = CHR ''+'' then 1 else - 1)
         in case Atoi (butlast (tl part)) of
              Inl e \<Rightarrow> Inl (ErrNotInteger (butlast (tl part)))
            | Inr v \<Rightarrow>
                if last part = CHR ''y'' then parseNowParts rest (wrap64 (sign * v), months, days)
                else if last part = CHR ''m'' then parseNowParts rest (years, wrap64 (sign * v), days)
                else if last part = CHR ''d'' then parseNowParts rest (years, months, wrap64 (sign * v))
                else Inl (ErrInvalidIdent (last part))))"

definition layoutOf :: "string \<Rightarrow> string" where
  "layoutOf layoutName =
     (if layoutName = [] \<or> layoutName = ''Layout'' then ''01/02 03:04:05PM '' @ [CHR 0x27] @ ''06 -0700''
      else if layoutName = ''ANSIC'' then ''Mon Jan _2 15:04:05 2006''
      else if layoutName = ''UnixDate'' then ''Mon Jan _2 15:04:05 MST 2006''
      else if layoutName = ''RubyDate'' then ''Mon Jan 02 15:04:05 -0700 2006''
      else if layoutName = ''RFC822'' then ''02 Jan 06 15:04 MST''
      else if layoutName = ''RFC822Z'' then ''02 Jan 06 15:04 -0700''
      else if layoutName = ''RFC850'' then ''Monday, 02-Jan-06 15:04:05 MST''
      else if layoutName = ''RFC1123'' then ''Mon, 02 Jan 2006 15:04:05 MST''
      else if layoutName = ''RFC1123Z'' then ''Mon, 02 Jan 2006 15:04:05 -0700''
      else if layoutName = ''RFC3339'' then ''2006-01-02T15:04:05Z07:00''
      else if layoutName = ''RFC3339Nano'' then ''2006-01-02T15:04:05.999999999Z07:00''
      else if layoutName = ''Kitchen'' then ''3:04PM''
      else layoutName)"

definition parseTime :: "env \<Rightarrow> string \<Rightarrow> string \<Rightarrow> gerror + gval" where
  "parseTime e layoutName val =
     (let now = timeNow e
      in if val = ''now'' then Inr now
         else if prefix ''now'' val then
           (let v1 = TrimSpace (drop 3 val);
                v2 = TrimSpace (nowReplacer v1);
                parts = Split v2 '' ''
            in case parseNowParts parts (0, 0, 0) of
                 Inl err \<Rightarrow> Inl err
               | Inr (years, months, days) \<Rightarrow> Inr (timeAddDate e now years months days))
         else timeParse e (layoutOf layoutName) val)"

text \<open>
  The expressions the grammar \<open>now ([+-] digits [ymd])*\<close> describes: a token is a sign, a
  digit string and an identifier; \<open>nowExpr\<close> writes a list of tokens after \<open>now\<close>;
  \<open>lastDelta c\<close> is the signed number of the last token with the identifier \<open>c\<close>, 0 when
  there is none.
\<close>

type_synonym token = "char \<times> string \<times> char"

definition validToken :: "token \<Rightarrow> bool" where
  "validToken t \<longleftrightarrow>
     (case t of (sg, ds, idc) \<Rightarrow>
        (sg = CHR ''+'' \<or> sg = CHR ''-'') \<and> ds \<noteq> [] \<and> list_all isDigit ds \<and>
        (idc = CHR ''y'' \<or> idc = CHR ''m'' \<or> idc = CHR ''d''))"

definition fitsInt :: "token \<Rightarrow> bool" where
  "fitsInt t \<longleftrightarrow> (case t of (sg, ds, idc) \<Rightarrow> decimal ds < 2 ^ 63)"

definition tokenText :: "token \<Rightarrow> string" where
  "tokenText t = (case t of (sg, ds, idc) \<Rightarrow> sg # ds @ [idc])"

definition nowExpr :: "token list \<Rightarrow> string" where
  "nowExpr toks = ''now'' @ concat (map tokenText toks)"

definition tokenDelta :: "token \<Rightarrow> int" where
  "tokenDelta t = (case t of (sg, ds, idc) \<Rightarrow> if sg = CHR ''+'' then decimal ds else - decimal ds)"

definition lastDelta :: "char \<Rightarrow> token list \<Rightarrow> int" where
  "lastDelta c toks =
     (case filter (\<lambda>t. snd (snd t) = c) toks of [] \<Rightarrow> 0 | t # ts \<Rightarrow> tokenDelta (last (t # ts)))"

text \<open>
  An environment to evaluate examples in: a clock reading, an \<open>AddDate\<close> that records the
  three deltas in the reading, decimal parsers, and no type with a decoding method.
\<close>

definition exampleEnv :: env where
  "exampleEnv =
     \<lparr>timeNow = VStruct [VUint 1, VInt 0, VPtr None],
      timeAddDate = (\<lambda>t y m d. VStruct [t, VInt y, VInt m, VInt d]),
      timeParse = (\<lambda>l v. Inl (ErrForeign ''time.Parse'')),
      timeParseDuration = (\<lambda>v. Inl (ErrForeign ''time.ParseDuration'')),
      strconvParseInt = (\<lambda>v bits. case Atoi v of Inl err \<Rightarrow> Inl (ErrForeign ''strconv.ParseInt'') | Inr n \<Rightarrow>
         if - (2 ^ (bits - 1)) \<le> n \<and> n < 2 ^ (bits - 1) then Inr n else Inl (ErrForeign ''strconv.ParseInt'')),
      strconvParseUint = (\<lambda>v bits. if v \<noteq> [] \<and> list_all isDigit v \<and> decimal v < 2 ^ bits
         then Inr (nat (decimal v)) else Inl (ErrForeign ''strconv.ParseUint'')),
      strconvParseBool = (\<lambda>v. if v \<in> set [''1'', ''t'', ''T'', ''TRUE'', ''true'', ''True''] then Inr True
         else if v \<in> set [''0'', ''f'', ''F'', ''FALSE'', ''false'', ''False''] then Inr False
         else Inl (ErrForeign ''strconv.ParseBool'')),
      strconvParseFloat = (\<lambda>v bits. Inl (ErrForeign ''strconv.ParseFloat'')),
      unmarshalText = (\<lambda>t. None),
      unmarshalBinary = (\<lambda>t. None)\<rparr>"

text \<open>
  \<open>assigned c toks a\<close> is \<open>lastDelta\<close> with the value \<open>a\<close> when no token has the
  identifier \<open>c\<close>.
\<close>

definition signChar :: "char \<Rightarrow> bool" where
  "signChar c \<longleftrightarrow> c = CHR ''+'' \<or> c = CHR ''-''"

definition identChar :: "char \<Rightarrow> bool" where
  "identChar c \<longleftrightarrow> c = CHR ''y'' \<or> c = CHR ''m'' \<or> c = CHR ''d''"

definition assigned :: "char \<Rightarrow> token list \<Rightarrow> int \<Rightarrow> int" where
  "assigned c toks a =
     (case filter (\<lambda>t. snd (snd t) = c) toks of [] \<Rightarrow> a | t # ts \<Rightarrow> tokenDelta (last (t # ts)))"

subsection \<open>\<open>ParseOptions\<close> (options.go)\<close>

record ParseOptions =
  delim :: "string option"

definition WithDelimiter :: "string \<Rightarrow> ParseOptions \<Rightarrow> ParseOptions" where
  "WithDelimiter s o' = o'\<lparr>delim := Some s\<rparr>"

definition Delim :: "ParseOptions \<Rightarrow> string" where
  "Delim o' = (case delim o' of Some s \<Rightarrow> if s \<noteq> [] then s else '';'' | None \<Rightarrow> '';'')"

subsection \<open>Types and zero values as \<open>reflect\<close> gives them\<close>

text \<open>
  \<open>Basic k\<close> is a type of a kind \<open>k\<close> with no component type (with the kind of a slice,
  a map, a pointer or a struct it counts as a type of another kind); \<open>Named p n t\<close> is the defined
  type \<open>p.n\<close> with the underlying type \<open>t\<close> (\<open>time.Time\<close>, \<open>time.Duration\<close>, a type with
  methods). A type is a finite tree: a struct type that contains itself through a pointer is
  outside the model. \<open>Bits\<close> is for a 64-bit platform.
\<close>

fun under :: "gtype \<Rightarrow> gtype" where
  "under (Named p n t) = under t"
| "under t = t"

definition Kind :: "gtype \<Rightarrow> kind" where
  "Kind t =
     (case under t of
        Basic k \<Rightarrow> (if k \<in> {KSlice, KMap, KPtr, KStruct} then KOther else k)
      | SliceOf _ \<Rightarrow> KSlice
      | MapOf _ _ \<Rightarrow> KMap
      | PtrTo _ \<Rightarrow> KPtr
      | StructOf _ \<Rightarrow> KStruct
      | Named _ _ _ \<Rightarrow> KOther)"

definition PkgPath :: "gtype \<Rightarrow> string" where
  "PkgPath t = (case t of Named p n _ \<Rightarrow> p | _ \<Rightarrow> [])"

definition Name :: "gtype \<Rightarrow> string" where
  "Name t = (case t of Named p n _ \<Rightarrow> n | _ \<Rightarrow> [])"

definition Elem :: "gtype \<Rightarrow> gtype" where
  "Elem t = (case under t of PtrTo x \<Rightarrow> x | SliceOf x \<Rightarrow> x | MapOf k x \<Rightarrow> x | _ \<Rightarrow> t)"

definition Bits :: "gtype \<Rightarrow> nat" where
  "Bits t =
     (case Kind t of
        KInt8 \<Rightarrow> 8 | KUint8 \<Rightarrow> 8
      | KInt16 \<Rightarrow> 16 | KUint16 \<Rightarrow> 16
      | KInt32 \<Rightarrow> 32 | KUint32 \<Rightarrow> 32 | KFloat32 \<Rightarrow> 32
      | _ \<Rightarrow> 64)"

fun tsize :: "gtype \<Rightarrow> nat" and tsizes :: "structField list \<Rightarrow> nat" where
  "tsize (Basic k) = 1"
| "tsize (SliceOf t) = Suc (tsize t)"
| "tsize (MapOf k v) = Suc (tsize k + tsize v)"
| "tsize (PtrTo t) = Suc (tsize t)"
| "tsize (StructOf fs) = Suc (tsizes fs)"
| "tsize (Named p n t) = Suc (tsize t)"
| "tsizes [] = 0"
| "tsizes (StructField n x tg t # fs) = Suc (tsize t + tsizes fs)"

fun zero :: "gtype \<Rightarrow> gval" and zeros :: "structField list \<Rightarrow> gval list" where
  "zero (Basic k) =
     (if k = KBool then VBool False
      else if k \<in> {KInt, KInt8, KInt16, KInt32, KInt64} then VInt 0
      else if k \<in> {KUint, KUint8, KUint16, KUint32, KUint64} then VUint 0
      else if k \<in> {KFloat32, KFloat64} then VFloat 0
      else if k = KString then VString []
      else VOpaque 0)"
| "zero (SliceOf t) = VSlice None"
| "zero (MapOf k v) = VMap None"
| "zero (PtrTo t) = VPtr None"
| "zero (StructOf fs) = VStruct (zeros fs)"
| "zero (Named p n t) = zero t"
| "zeros [] = []"
| "zeros (StructField n x tg t # fs) = zero t # zeros fs"

fun IsZero :: "gval \<Rightarrow> bool" where
  "IsZero (VBool b) = (\<not> b)"
| "IsZero (VInt i) = (i = 0)"
| "IsZero (VUint n) = (n = 0)"
| "IsZero (VFloat bits) = (bits = 0)"
| "IsZero (VString s) = (s = [])"
| "IsZero (VSlice xs) = (xs = None)"
| "IsZero (VMap m) = (m = None)"
| "IsZero (VPtr p) = (p = None)"
| "IsZero (VStruct vs) = list_all IsZero vs"
| "IsZero (VOpaque n) = (n = 0)"

subsection \<open>\<open>processField\<close> (fields.go)\<close>

text \<open>
  \<open>processField\<close> returns its error and the value it leaves in the field (a nil pointer
  stays allocated when the coercion after it fails). \<open>setBasic\<close> is the part of its switch
  for the kinds with no component; \<open>sliceLoop\<close> and \<open>mapLoop\<close> are its two loops, over the
  coercion of an element, of a key and of a map value. \<open>SetMapIndex\<close> is the one of
  \<open>reflect\<close>: it replaces the entry whose key equals the new key, key included, and adds an
  entry when there is none. \<open>keyEq\<close> is the \<open>==\<close> of Go on keys: a NaN equals nothing, the
  two zeros of a float are equal, structs are compared field by field, and two pointers are
  equal when both are nil (the model has no two pointers to the same storage: every
  pointer of a key is an allocation of its own).
\<close>

definition isTime :: "gtype \<Rightarrow> bool" where
  "isTime typ \<longleftrightarrow> PkgPath typ = ''time'' \<and> Name typ = ''Time''"

definition setBasic :: "env \<Rightarrow> string \<Rightarrow> gtype \<Rightarrow> gval \<Rightarrow> gerror option \<times> gval" where
  "setBasic e val typ fld =
     (let k = Kind typ
      in if k = KString then (None, VString val)
         else if k \<in> {KInt, KInt8, KInt16, KInt32, KInt64} then
           (if k = KInt64 \<and> PkgPath typ = ''time'' \<and> Name typ = ''Duration'' then
              (case timeParseDuration e val of
                 Inl err \<Rightarrow> (Some err, fld)
               | Inr d \<Rightarrow> (None, VInt d))
            else
              (case strconvParseInt e val (Bits typ) of
                 Inl err \<Rightarrow> (Some err, fld)
               | Inr n \<Rightarrow> (None, VInt n)))
         else if k \<in> {KUint, KUint8, KUint16, KUint32, KUint64} then
           (case strconvParseUint e val (Bits typ) of
              Inl err \<Rightarrow> (Some err, fld)
            | Inr n \<Rightarrow> (None, VUint n))
         else if k = KBool then
           (case strconvParseBool e val of
              Inl err \<Rightarrow> (Some err, fld)
            | Inr b \<Rightarrow> (None, VBool b))
         else if k \<in> {KFloat32, KFloat64} then
           (case strconvParseFloat e val (Bits typ) of
              Inl err \<Rightarrow> (Some err, fld)
            | Inr x \<Rightarrow> (None, VFloat x))
         else (None, fld))"

fun sliceLoop :: "(string \<Rightarrow> gerror option \<times> gval) \<Rightarrow> string list \<Rightarrow> gerror + gval list" where
  "sliceLoop f [] = Inr []"
| "sliceLoop f (v # vs) =
     (case f v of
        (Some err, _) \<Rightarrow> Inl err
      | (None, x) \<Rightarrow> (case sliceLoop f vs of Inl err \<Rightarrow> Inl err | Inr xs \<Rightarrow> Inr (x # xs)))"

definition floatNaN :: "nat \<Rightarrow> bool" where
  "floatNaN bits \<longleftrightarrow> (bits div 2 ^ 52) mod 2 ^ 11 = 2047 \<and> bits mod 2 ^ 52 \<noteq> 0"

fun keyEq :: "gval \<Rightarrow> gval \<Rightarrow> bool" and keysEq :: "gval list \<Rightarrow> gval list \<Rightarrow> bool" where
  "keyEq (VFloat a) (VFloat b) =
     (\<not> floatNaN a \<and> \<not> floatNaN b \<and> (a = b \<or> a mod 2 ^ 63 = 0 \<and> b mod 2 ^ 63 = 0))"
| "keyEq (VPtr p) (VPtr q) = (p = None \<and> q = None)"
| "keyEq (VStruct xs) (VStruct ys) = keysEq xs ys"
| "keyEq (VBool a) y = (y = VBool a)"
| "keyEq (VInt a) y = (y = VInt a)"
| "keyEq (VUint a) y = (y = VUint a)"
| "keyEq (VString a) y = (y = VString a)"
| "keyEq (VSlice a) y = (y = VSlice a)"
| "keyEq (VMap a) y = (y = VMap a)"
| "keyEq (VOpaque a) y = (y = VOpaque a)"
| "keyEq (VFloat a) y = False"
| "keyEq (VPtr p) y = False"
| "keyEq (VStruct xs) y = False"
| "keysEq [] ys = (ys = [])"
| "keysEq (x # xs) [] = False"
| "keysEq (x # xs) (y # ys) = (keyEq x y \<and> keysEq xs ys)"

definition SetMapIndex :: "(gval \<times> gval) list \<Rightarrow> gval \<Rightarrow> gval \<Rightarrow> (gval \<times> gval) list" where
  "SetMapIndex mp k v =
     (if list_ex (\<lambda>kv. keyEq (fst kv) k) mp
      then map (\<lambda>kv. if keyEq (fst kv) k then (k, v) else kv) mp
      else mp @ [(k, v)])"

fun mapLoop :: "(string \<Rightarrow> gerror option \<times> gval) \<Rightarrow> (string \<Rightarrow> gerror option \<times> gval) \<Rightarrow>
    string list \<Rightarrow> (gval \<times> gval) list \<Rightarrow> gerror + (gval \<times> gval) list" where
  "mapLoop fk fv [] mp = Inr mp"
| "mapLoop fk fv (pair # rest) mp =
     (case Split pair '':'' of
        [k0, v0] \<Rightarrow>
          (case fk k0 of
             (Some err, _) \<Rightarrow> Inl err
           | (None, k) \<Rightarrow>
               (case fv v0 of
                  (Some err, _) \<Rightarrow> Inl err
                | (None, v) \<Rightarrow> mapLoop fk fv rest (SetMapIndex mp k v)))
      | _ \<Rightarrow> Inl (ErrInvalidMapItem pair))"

lemma tsize_under: "tsize (under t) \<le> tsize t"
  by (induction t rule: under.induct) auto

lemma tsize_Elem: "tsize (Elem t) \<le> tsize t"
  using tsize_under [of t] by (auto simp: Elem_def split: gtype.splits)

function processField ::
  "env \<Rightarrow> bool \<Rightarrow> string \<Rightarrow> gtype \<Rightarrow> gval \<Rightarrow> fieldOptions \<Rightarrow> ParseOptions \<Rightarrow> gerror option \<times> gval"
where
  "processField e settingDefault val typ fld fOpts pOpts =
     (if isTime typ then
        (case parseTime e (layout fOpts) val of
           Inl err \<Rightarrow> (Some err, fld)
         | Inr tim \<Rightarrow> (None, tim))
      else case unmarshalText e typ of
        Some t \<Rightarrow> t val fld
      | None \<Rightarrow>
     (case unmarshalBinary e typ of
        Some b \<Rightarrow> b val fld
      | None \<Rightarrow>
     (let isPtr = (Kind typ = KPtr);
          typ1 = (if isPtr then Elem typ else typ);
          fld1 = (if isPtr then (case fld of VPtr (Some x) \<Rightarrow> x | _ \<Rightarrow> zero typ1) else fld);
          wrap = (if isPtr then (\<lambda>x. VPtr (Some x)) else (\<lambda>x. x))
      in if settingDefault \<and> \<not> IsZero fld1 then (None, wrap fld1)
         else
           (case
              (case under typ1 of
                 Basic k \<Rightarrow> setBasic e val typ1 fld1
               | SliceOf et \<Rightarrow>
                   (case sliceLoop (\<lambda>v. processField e False v et (zero et) fOpts pOpts)
                           (Split val (Delim pOpts)) of
                      Inl err \<Rightarrow> (Some err, fld1)
                    | Inr sl \<Rightarrow> (None, VSlice (Some sl)))
               | MapOf kt vt \<Rightarrow>
                   (if TrimSpace val \<noteq> [] then
                      (case mapLoop (\<lambda>v. processField e False v kt (zero kt) fOpts pOpts)
                              (\<lambda>v. processField e False v vt (zero vt) fOpts pOpts)
                              (Split val (Delim pOpts)) [] of
                         Inl err \<Rightarrow> (Some err, fld1)
                       | Inr mp \<Rightarrow> (None, VMap (Some mp)))
                    else (None, VMap (Some [])))
               | _ \<Rightarrow> (None, fld1))
            of (err, v) \<Rightarrow> (err, wrap v)))))"
  by pat_completeness auto
termination
proof (relation "measure (\<lambda>(e, sd, val, ty, fld, fOpts, pOpts). tsize ty)")
  show "wf (measure (\<lambda>(e, sd, val, ty, fld, fOpts, pOpts). tsize ty))" by simp
next
  fix e :: env and sd :: bool and s :: string and ty :: gtype and fld :: gval
    and fOpts :: fieldOptions and pOpts :: ParseOptions
    and isPtr ty1 et v
  assume "ty1 = (if isPtr then Elem ty else ty)" and "under ty1 = SliceOf et"
  then have "tsize et < tsize ty"
    using tsize_under [of ty1] tsize_Elem [of ty] by (auto split: if_splits)
  then show "((e, False, v, et, zero et, fOpts, pOpts), e, sd, s, ty, fld, fOpts, pOpts)
      \<in> measure (\<lambda>(e, sd, val, ty, fld, fOpts, pOpts). tsize ty)"
    by simp
next
  fix e :: env and sd :: bool and s :: string and ty :: gtype and fld :: gval
    and fOpts :: fieldOptions and pOpts :: ParseOptions
    and isPtr ty1 kt vt v
  assume "ty1 = (if isPtr then Elem ty else ty)" and "under ty1 = MapOf kt vt"
  then have "tsize kt < tsize ty"
    using tsize_under [of ty1] tsize_Elem [of ty] by (auto split: if_splits)
  then show "((e, False, v, kt, zero kt, fOpts, pOpts), e, sd, s, ty, fld, fOpts, pOpts)
      \<in> measure (\<lambda>(e, sd, val, ty, fld, fOpts, pOpts). tsize ty)"
    by simp
next
  fix e :: env and sd :: bool and s :: string and ty :: gtype and fld :: gval
    and fOpts :: fieldOptions and pOpts :: ParseOptions
    and isPtr ty1 kt vt v
  assume "ty1 = (if isPtr then Elem ty else ty)" and "under ty1 = MapOf kt vt"
  then have "tsize vt < tsize ty"
    using tsize_under [of ty1] tsize_Elem [of ty] by (auto split: if_splits)
  then show "((e, False, v, vt, zero vt, fOpts, pOpts), e, sd, s, ty, fld, fOpts, pOpts)
      \<in> measure (\<lambda>(e, sd, val, ty, fld, fOpts, pOpts). tsize ty)"
    by simp
qed

declare processField.simps [simp del]

text \<open>
  \<open>plainType\<close>: the type is not \<open>time.Time\<close> and has neither decoding method, so
  \<open>processField\<close> reaches its pointer step. \<open>derefTarget\<close> is the value the zero check of
  \<open>processField\<close> reads: the field, or what its pointer points to (fresh zero storage when the
  pointer is nil). \<open>keyPart\<close> and \<open>valuePart\<close> are what stands before and after the
  first colon of a pair; \<open>pairOk\<close>: a pair of a map has one colon, and both sides coerce;
  \<open>stringPairs\<close> is the map from strings to strings that a list of pairs describes, a later
  pair replacing an earlier one with the same key. \<open>timeType\<close> is \<open>time.Time\<close> as \<open>reflect\<close> sees it.
\<close>

definition plainType :: "env \<Rightarrow> gtype \<Rightarrow> bool" where
  "plainType e t \<longleftrightarrow> \<not> isTime t \<and> unmarshalText e t = None \<and> unmarshalBinary e t = None"

definition derefTarget :: "gtype \<Rightarrow> gval \<Rightarrow> gval" where
  "derefTarget t fld =
     (if Kind t = KPtr then (case fld of VPtr (Some x) \<Rightarrow> x | _ \<Rightarrow> zero (Elem t)) else fld)"

definition keyPart :: "string \<Rightarrow> string" where
  "keyPart q = takeWhile (\<lambda>c. c \<noteq> CHR '':'') q"

definition valuePart :: "string \<Rightarrow> string" where
  "valuePart q = drop (Suc (length (keyPart q))) q"

definition pairOk ::
  "(string \<Rightarrow> gerror option \<times> gval) \<Rightarrow> (string \<Rightarrow> gerror option \<times> gval) \<Rightarrow> string \<Rightarrow> bool" where
  "pairOk fk fv q \<longleftrightarrow>
     count_list q CHR '':'' = 1 \<and> fst (fk (keyPart q)) = None \<and> fst (fv (valuePart q)) = None"

definition stringPairs :: "string list \<Rightarrow> (gval \<times> gval) list" where
  "stringPairs pairs =
     foldl (\<lambda>mp q. SetMapIndex mp (VString (keyPart q)) (VString (valuePart q))) [] pairs"


definition stringType :: gtype where
  "stringType = Basic KString"

definition noParseOptions :: ParseOptions where
  "noParseOptions = \<lparr>delim = None\<rparr>"

subsection \<open>\<open>extractFields\<close> (fields.go)\<close>

text \<open>
  A field handle (\<open>reflect.Value\<close>) is modelled by the path from the destination struct to
  the field's storage, a list of steps into a struct field or through a pointer, and by the
  field's type: \<open>getPath\<close> reads the storage and \<open>putPath\<close> writes it. The destination is a
  tree: two pointers never share a pointee. \<open>fldTag\<close> is the value of the \<open>urlvalue\<close> key
  of the field's tag, and \<open>fldExported\<close> is \<open>CanSet\<close>.

  \<open>drill\<close> is the loop through the pointers of a field: it returns the steps taken, the type
  and the value it stops at, and the value of the field with the pointers to structs it
  allocated. \<open>extractLoop\<close> is the loop over the fields of a struct, from index \<open>i\<close>, with
  the path \<open>pre\<close> of the struct; it returns the error, the descriptors and the new field
  values. \<open>extractFields\<close> is the function on a \<open>target\<close>, \<open>None\<close> for the nil interface.
\<close>

datatype step = FieldStep nat | DerefStep

record fieldDesc =
  fname :: string
  fpath :: "step list"
  ftype :: gtype
  options :: fieldOptions

fun getPath :: "step list \<Rightarrow> gval \<Rightarrow> gval option" where
  "getPath [] v = Some v"
| "getPath (FieldStep i # p) (VStruct vs) = (if i < length vs then getPath p (vs ! i) else None)"
| "getPath (DerefStep # p) (VPtr (Some x)) = getPath p x"
| "getPath (st # p) v = None"

fun putPath :: "step list \<Rightarrow> gval \<Rightarrow> gval \<Rightarrow> gval" where
  "putPath [] x v = x"
| "putPath (FieldStep i # p) x (VStruct vs) =
     (if i < length vs then VStruct (vs[i := putPath p x (vs ! i)]) else VStruct vs)"
| "putPath (DerefStep # p) x (VPtr (Some y)) = VPtr (Some (putPath p x y))"
| "putPath (st # p) x v = v"

lemma under_PtrTo_tsize: "under t = PtrTo t1 \<Longrightarrow> tsize t1 < tsize t"
  using tsize_under [of t] by simp

function drill :: "gtype \<Rightarrow> gval \<Rightarrow> step list \<times> gtype \<times> gval \<times> gval" where
  "drill t v =
     (case under t of
        PtrTo t1 \<Rightarrow>
          (case v of
             VPtr (Some x) \<Rightarrow>
               (case drill t1 x of (p, lt, lv, x') \<Rightarrow> (DerefStep # p, lt, lv, VPtr (Some x')))
           | VPtr None \<Rightarrow>
               if Kind t1 \<noteq> KStruct then ([], t, v, v)
               else (case drill t1 (zero t1) of
                       (p, lt, lv, x') \<Rightarrow> (DerefStep # p, lt, lv, VPtr (Some x')))
           | _ \<Rightarrow> ([], t, v, v))
      | _ \<Rightarrow> ([], t, v, v))"
  by pat_completeness auto
termination
  by (relation "measure (\<lambda>(t, v). tsize t)") (auto dest: under_PtrTo_tsize)

declare drill.simps [simp del]

lemma tsize_drill: "drill t v = (p, lt, lv, v') \<Longrightarrow> tsize lt \<le> tsize t"
proof (induction t v arbitrary: p lt lv v' rule: drill.induct)
  case (1 t v)
  show ?case
  proof (cases "under t")
    case (PtrTo t1)
    then have lt: "tsize t1 < tsize t" using tsize_under [of t] by simp
    show ?thesis
    proof (cases v)
      case (VPtr po)
      show ?thesis
      proof (cases po)
        case None
        show ?thesis
        proof (cases "Kind t1 \<noteq> KStruct")
          case True
          with "1.prems" PtrTo VPtr None show ?thesis
            by (subst (asm) drill.simps) simp
        next
          case False
          obtain p1 lt1 lv1 x1 where d: "drill t1 (zero t1) = (p1, lt1, lv1, x1)"
            by (cases "drill t1 (zero t1)") auto
          with "1.prems" PtrTo VPtr None False have "lt = lt1"
            by (subst (asm) drill.simps) simp
          moreover have "tsize lt1 \<le> tsize t1"
            using "1.IH"(1) [OF PtrTo VPtr None _ d] False by simp
          ultimately show ?thesis using lt by simp
        qed
      next
        case (Some x)
        obtain p1 lt1 lv1 x1 where d: "drill t1 x = (p1, lt1, lv1, x1)"
          by (cases "drill t1 x") auto
        with "1.prems" PtrTo VPtr Some have "lt = lt1"
          by (subst (asm) drill.simps) simp
        moreover have "tsize lt1 \<le> tsize t1"
          using "1.IH"(2) [OF PtrTo VPtr Some d] by simp
        ultimately show ?thesis using lt by simp
      qed
    qed (use "1.prems" PtrTo in \<open>subst (asm) drill.simps, simp\<close>)+
  qed (use "1.prems" in \<open>subst (asm) drill.simps, simp\<close>)+
qed

lemma tsizes_Cons: "tsizes sfs < tsizes (sf # sfs)"
  by (cases sf) simp

lemma nested_tsizes:
  assumes "(p, y) = drill (fldType sf) v" and "(lt, z) = y" and "under lt = StructOf sfs1"
  shows "tsizes sfs1 < tsizes (sf # sfs)"
proof -
  obtain lv v1 where "z = (lv, v1)" by (cases z)
  with assms have d: "drill (fldType sf) v = (p, lt, lv, v1)" by simp
  have "tsizes sfs1 < tsize lt" using tsize_under [of lt] assms(3) by simp
  also have "\<dots> \<le> tsize (fldType sf)" using d by (rule tsize_drill)
  also have "\<dots> < tsizes (sf # sfs)" by (cases sf) simp
  finally show ?thesis .
qed

function extractLoop ::
  "env \<Rightarrow> step list \<Rightarrow> nat \<Rightarrow> structField list \<Rightarrow> gval list \<Rightarrow> gerror option \<times> fieldDesc list \<times> gval list"
where
  "extractLoop e pre i [] vs = (None, [], vs)"
| "extractLoop e pre i (sf # sfs) [] = (Some Panic, [], [])"
| "extractLoop e pre i (sf # sfs) (v # vs) =
     (if \<not> fldExported sf \<or> fldTag sf = ''-'' then
        (case extractLoop e pre (Suc i) sfs vs of (err, fs, vs') \<Rightarrow> (err, fs, v # vs'))
      else case parseTag (fldTag sf) of
        Inl err \<Rightarrow> (Some (ErrTagField (fldName sf) err), [], v # vs)
      | Inr fieldOpts \<Rightarrow>
     (case drill (fldType sf) v of (p, lt, lv, v1) \<Rightarrow>
        if Kind lt = KStruct \<and> unmarshalText e lt = None \<and> unmarshalBinary e lt = None then
          (case under lt of
             StructOf sfs1 \<Rightarrow>
               (case lv of
                  VStruct vs1 \<Rightarrow>
                    (case extractLoop e (pre @ FieldStep i # p) 0 sfs1 vs1 of
                       (Some err, fs1, vs1') \<Rightarrow>
                         (Some (ErrWrapped err), [], putPath p (VStruct vs1') v1 # vs)
                     | (None, fs1, vs1') \<Rightarrow>
                         (case extractLoop e pre (Suc i) sfs vs of
                            (err, fs, vs') \<Rightarrow>
                              (err, if err = None then fs1 @ fs else [],
                               putPath p (VStruct vs1') v1 # vs')))
                | _ \<Rightarrow> (Some Panic, [], v1 # vs))
           | _ \<Rightarrow> (Some (ErrWrapped ErrInvalidStruct), [], v1 # vs))
        else
          (case extractLoop e pre (Suc i) sfs vs of
             (err, fs, vs') \<Rightarrow>
               (err,
                if err = None
                then \<lparr>fname = fldName sf, fpath = pre @ FieldStep i # p, ftype = lt,
                      options = fieldOpts\<rparr> # fs
                else [],
                v1 # vs'))))"
  by pat_completeness auto
termination
  apply (relation "measure (\<lambda>(e, pre, i, sfs, vs). tsizes sfs)")
      apply (simp_all add: tsizes_Cons)
  apply (rule nested_tsizes; assumption)
  done

declare extractLoop.simps [simp del]

definition extractFields ::
  "env \<Rightarrow> (gtype \<times> gval) option \<Rightarrow> gerror option \<times> fieldDesc list \<times> gval" where
  "extractFields e target =
     (case target of
        None \<Rightarrow> (Some ErrInvalidStruct, [], VPtr None)
      | Some (t, v) \<Rightarrow>
          if Kind t \<noteq> KPtr then (Some ErrInvalidStruct, [], v)
          else (case v of
                  VPtr (Some strct) \<Rightarrow>
                    (case under (Elem t) of
                       StructOf sfs \<Rightarrow>
                         (case strct of
                            VStruct vs \<Rightarrow>
                              (case extractLoop e [] 0 sfs vs of
                                 (err, fs, vs') \<Rightarrow> (err, fs, VPtr (Some (VStruct vs'))))
                          | _ \<Rightarrow> (Some Panic, [], v))
                     | _ \<Rightarrow> (Some ErrInvalidStruct, [], v))
                | _ \<Rightarrow> (Some ErrInvalidStruct, [], v)))"

subsection \<open>\<open>Unmarshal\<close> (urlvalues.go)\<close>

text \<open>
  \<open>url.Values\<close> is a map from keys to lists of values. \<open>processAt\<close> is \<open>processField\<close> on
  the storage of a flattened field of the destination struct \<open>s\<close>. \<open>lookupKey\<close> and
  \<open>inputValue\<close> are the key and the value that \<open>Unmarshal\<close> computes for a field.
  \<open>fieldStep\<close> is the body of the loop of \<open>Unmarshal\<close> and \<open>fieldsLoop\<close> the loop; both
  return the error and the destination struct as the step leaves it. \<open>Unmarshal\<close> returns
  its error and the target as it leaves it. \<open>typeName\<close> of a \<open>FieldError\<close> is kept as the
  type, not as its printed name.
\<close>

type_synonym urlValues = "string \<Rightarrow> string list option"

definition processAt ::
  "env \<Rightarrow> bool \<Rightarrow> string \<Rightarrow> fieldDesc \<Rightarrow> ParseOptions \<Rightarrow> gval \<Rightarrow> gerror option \<times> gval" where
  "processAt e settingDefault val f pOpts s =
     (case getPath (fpath f) s of
        None \<Rightarrow> (Some Panic, s)
      | Some v \<Rightarrow>
          (case processField e settingDefault val (ftype f) v (options f) pOpts of
             (err, v') \<Rightarrow> (err, putPath (fpath f) v' s)))"

definition lookupKey :: "fieldDesc \<Rightarrow> string" where
  "lookupKey f = (if key (options f) = [] then fname f else key (options f))"

definition inputValue :: "ParseOptions \<Rightarrow> string list \<Rightarrow> string" where
  "inputValue pOpts vals = (if length vals > 1 then Join vals (Delim pOpts) else hd vals)"

definition defaultStep :: "env \<Rightarrow> ParseOptions \<Rightarrow> fieldDesc \<Rightarrow> gval \<Rightarrow> gerror option \<times> gval" where
  "defaultStep e pOpts f s =
     (if defaultValue (options f) \<noteq> [] then
        (case processAt e True (defaultValue (options f)) f pOpts s of
           (Some err, s1) \<Rightarrow>
             (Some (FieldError (fname f) (ftype f) (defaultValue (options f)) err), s1)
         | (None, s1) \<Rightarrow> (None, s1))
      else (None, s))"

definition inputStep ::
  "env \<Rightarrow> urlValues \<Rightarrow> ParseOptions \<Rightarrow> fieldDesc \<Rightarrow> gval \<Rightarrow> gerror option \<times> gval" where
  "inputStep e data pOpts f s =
     (case data (lookupKey f) of
        None \<Rightarrow> (None, s)
      | Some vals \<Rightarrow>
          if vals = [] then (None, s)
          else
            (case processAt e False (inputValue pOpts vals) f pOpts s of
               (Some err, s2) \<Rightarrow>
                 (Some (ParseError (fname f) (lookupKey f)
                          (FieldError (fname f) (ftype f) (inputValue pOpts vals) err)), s2)
             | (None, s2) \<Rightarrow> (None, s2)))"

definition fieldStep ::
  "env \<Rightarrow> urlValues \<Rightarrow> ParseOptions \<Rightarrow> fieldDesc \<Rightarrow> gval \<Rightarrow> gerror option \<times> gval" where
  "fieldStep e data pOpts f s =
     (case defaultStep e pOpts f s of
        (Some err, s1) \<Rightarrow> (Some err, s1)
      | (None, s1) \<Rightarrow> inputStep e data pOpts f s1)"

fun fieldsLoop ::
  "env \<Rightarrow> urlValues \<Rightarrow> ParseOptions \<Rightarrow> fieldDesc list \<Rightarrow> gval \<Rightarrow> gerror option \<times> gval" where
  "fieldsLoop e data pOpts [] s = (None, s)"
| "fieldsLoop e data pOpts (f # fs) s =
     (case fieldStep e data pOpts f s of
        (Some err, s1) \<Rightarrow> (Some err, s1)
      | (None, s1) \<Rightarrow> fieldsLoop e data pOpts fs s1)"

definition applyOptions :: "(ParseOptions \<Rightarrow> ParseOptions) list \<Rightarrow> ParseOptions" where
  "applyOptions setParseOpts = foldl (\<lambda>pOpts f. f pOpts) \<lparr>delim = None\<rparr> setParseOpts"

definition Unmarshal ::
  "env \<Rightarrow> urlValues \<Rightarrow> (gtype \<times> gval) option \<Rightarrow> (ParseOptions \<Rightarrow> ParseOptions) list \<Rightarrow>
     gerror option \<times> gval" where
  "Unmarshal e data target setParseOpts =
     (let pOpts = applyOptions setParseOpts
      in case extractFields e target of
           (Some err, flds, v) \<Rightarrow> (Some err, v)
         | (None, flds, v) \<Rightarrow>
             if flds = [] then (Some ErrNoFields, v)
             else
               (case v of
                  VPtr (Some s) \<Rightarrow>
                    (case fieldsLoop e data pOpts flds s of
                       (err, s') \<Rightarrow> (err, VPtr (Some s')))
                | _ \<Rightarrow> (Some Panic, v)))"

text \<open>
  The target of the tests of the package, cut down to a few of its fields, and the one of
  the example of the package; \<open>valuesOf\<close> makes \<open>url.Values\<close> of a list of entries.
\<close>

definition valuesOf :: "(string \<times> string list) list \<Rightarrow> urlValues" where
  "valuesOf kvs = map_of kvs"

definition testTargetType :: gtype where
  "testTargetType =
     StructOf
       [StructField ''String'' True ''aString,default:banana'' (Basic KString),
        StructField ''Ptr'' True [] (PtrTo (Basic KString)),
        StructField ''Int'' True ''aInt,default:42'' (Basic KInt),
        StructField ''Skip'' True ''-'' (Basic KString),
        StructField ''NotSkipped'' True ''-,'' (Basic KString),
        StructField ''Map'' True ''aMap'' (MapOf (Basic KString) (Basic KString)),
        StructField ''Anon'' True []
          (StructOf [StructField ''Slice'' True ''items'' (SliceOf (Basic KString))]),
        StructField ''Embed'' True [] (Named ''urlvalues_test'' ''Embed''
          (StructOf [StructField ''Byte'' True [] (Basic KUint8)]))]"

definition testTarget :: "(gtype \<times> gval) option" where
  "testTarget = Some (PtrTo testTargetType, VPtr (Some (zero testTargetType)))"

text \<open>
  The two shapes of an error of the loop of \<open>Unmarshal\<close>: the bare \<open>FieldError\<close> of a
  default, and the \<open>ParseError\<close> of an input value, which wraps a \<open>FieldError\<close> and
  carries the key. Then three small targets: a field with a default that is no integer, a
  field with no tag, and the slice field of the tests.
\<close>

definition defaultFailure :: "fieldDesc \<Rightarrow> gerror \<Rightarrow> gerror" where
  "defaultFailure f cause = FieldError (fname f) (ftype f) (defaultValue (options f)) cause"

definition inputFailure :: "fieldDesc \<Rightarrow> string \<Rightarrow> gerror \<Rightarrow> gerror" where
  "inputFailure f val cause =
     ParseError (fname f) (lookupKey f) (FieldError (fname f) (ftype f) val cause)"

definition defaultTarget :: "(gtype \<times> gval) option" where
  "defaultTarget =
     Some (PtrTo (StructOf [StructField ''Value'' True '',default:notAnInt'' (Basic KInt)]),
           VPtr (Some (VStruct [VInt 0])))"

definition valueTarget :: "(gtype \<times> gval) option" where
  "valueTarget =
     Some (PtrTo (StructOf [StructField ''Value'' True [] (Basic KInt)]),
           VPtr (Some (VStruct [VInt 0])))"

definition itemsTarget :: "(gtype \<times> gval) option" where
  "itemsTarget =
     Some (PtrTo (StructOf [StructField ''Slice'' True ''items'' (SliceOf (Basic KString))]),
           VPtr (Some (VStruct [VSlice None])))"

subsection \<open>Well-typed values and separate storage\<close>

text \<open>
  \<open>hasType t v\<close>: the value \<open>v\<close> is one that Go can hold in a variable of the type \<open>t\<close>.
  \<open>diverge p q\<close>: the two paths part at a struct, into two different fields, so the storage
  they reach is separate. \<open>skipped data f\<close>: the field has no default and the input has no
  value for its key, so \<open>Unmarshal\<close> coerces nothing into it.
\<close>

fun hasType :: "gtype \<Rightarrow> gval \<Rightarrow> bool" and hasTypes :: "structField list \<Rightarrow> gval list \<Rightarrow> bool" where
  "hasType (Basic k) v =
     (case v of
        VBool b \<Rightarrow> k = KBool
      | VInt n \<Rightarrow> k \<in> {KInt, KInt8, KInt16, KInt32, KInt64}
      | VUint n \<Rightarrow> k \<in> {KUint, KUint8, KUint16, KUint32, KUint64}
      | VFloat x \<Rightarrow> k \<in> {KFloat32, KFloat64}
      | VString s \<Rightarrow> k = KString
      | VOpaque n \<Rightarrow> k \<in> {KSlice, KMap, KPtr, KStruct, KOther}
      | _ \<Rightarrow> False)"
| "hasType (SliceOf t) v =
     (case v of
        VSlice None \<Rightarrow> True
      | VSlice (Some xs) \<Rightarrow> list_all (hasType t) xs
      | _ \<Rightarrow> False)"
| "hasType (MapOf kt vt) v =
     (case v of
        VMap None \<Rightarrow> True
      | VMap (Some m) \<Rightarrow> list_all (\<lambda>kv. hasType kt (fst kv) \<and> hasType vt (snd kv)) m
      | _ \<Rightarrow> False)"
| "hasType (PtrTo t) v =
     (case v of
        VPtr None \<Rightarrow> True
      | VPtr (Some x) \<Rightarrow> hasType t x
      | _ \<Rightarrow> False)"
| "hasType (StructOf sfs) v = (case v of VStruct vs \<Rightarrow> hasTypes sfs vs | _ \<Rightarrow> False)"
| "hasType (Named p n t) v = hasType t v"
| "hasTypes [] vs = (vs = [])"
| "hasTypes (StructField n x tg t # sfs) vs =
     (case vs of [] \<Rightarrow> False | v # vs' \<Rightarrow> hasType t v \<and> hasTypes sfs vs')"

definition diverge :: "step list \<Rightarrow> step list \<Rightarrow> bool" where
  "diverge p q \<longleftrightarrow>
     (\<exists>c a b p' q'. p = c @ FieldStep a # p' \<and> q = c @ FieldStep b # q' \<and> a \<noteq> b)"

fun allDiverge :: "step list list \<Rightarrow> bool" where
  "allDiverge [] = True"
| "allDiverge (p # ps) = ((\<forall>q \<in> set ps. diverge p q) \<and> allDiverge ps)"

definition skipped :: "urlValues \<Rightarrow> fieldDesc \<Rightarrow> bool" where
  "skipped data f \<longleftrightarrow>
     defaultValue (options f) = [] \<and>
     (data (lookupKey f) = None \<or> data (lookupKey f) = Some [])"

text \<open>
  \<open>leafAt pre i vs d\<close>: the descriptor \<open>d\<close> lies below the field \<open>i + j\<close> of the struct with
  the path \<open>pre\<close>, its storage is found from the \<open>j\<close>-th of the values \<open>vs\<close>, and when its type
  is a pointer, the pointer is nil and does not point to a struct. \<open>filterTarget\<close> is a
  target with a pointer field, as in the example of the package.
\<close>

definition leafAt :: "step list \<Rightarrow> nat \<Rightarrow> gval list \<Rightarrow> fieldDesc \<Rightarrow> bool" where
  "leafAt pre i vs d \<longleftrightarrow>
     (\<exists>j q lv. fpath d = pre @ FieldStep (i + j) # q \<and> j < length vs \<and>
        getPath q (vs ! j) = Some lv \<and> (Kind (ftype d) = KPtr \<longrightarrow> lv = VPtr None \<and> Kind (Elem (ftype d)) \<noteq> KStruct))"

definition filterTarget :: "gtype \<times> gval" where
  "filterTarget =
     (PtrTo (StructOf
        [StructField ''NameFilter'' True ''name_filter'' (PtrTo (Basic KString)),
         StructField ''Genres'' True ''genres'' (SliceOf (Basic KString))]),
      VPtr (Some (VStruct [VPtr None, VSlice None])))"

subsection \<open>The decoders of the tests\<close>

text \<open>
  The tests of the package (urlvalues\_test.go) declare \<open>TestTextUnmarshaler\<close>, a string
  type whose \<open>UnmarshalText\<close> stores \<open>text_\<close> followed by the text, and
  \<open>TestBinaryUnmarshaler\<close>, a type of byte slices whose \<open>UnmarshalBinary\<close> stores the bytes of
  \<open>data_\<close> followed by the data. \<open>testEnv\<close> is \<open>exampleEnv\<close> with these two methods.
\<close>

definition textType :: gtype where
  "textType = Named ''urlvalues_test'' ''TestTextUnmarshaler'' (Basic KString)"

definition binaryType :: gtype where
  "binaryType = Named ''urlvalues_test'' ''TestBinaryUnmarshaler'' (SliceOf (Basic KUint8))"

definition bytes :: "string \<Rightarrow> gval" where
  "bytes s = VSlice (Some (map (\<lambda>c. VUint (of_char c)) s))"

definition testEnv :: env where
  "testEnv = exampleEnv
     \<lparr>unmarshalText := (\<lambda>t. if t = textType then Some (\<lambda>text fld. (None, VString (''text_'' @ text)))
                            else None),
      unmarshalBinary := (\<lambda>t. if t = binaryType then Some (\<lambda>data fld. (None, bytes (''data_'' @ data)))
                              else None)\<rparr>"

subsection \<open>The destination as a store\<close>

text \<open>
  Above, the destination is a tree: a pointer owns what it points to. A destination in
  which two pointers hold the same address is a store, a list of cells: a pointer is nil or
  the address of a cell, or of a field inside the struct of a cell (\<open>&t.A\<close>). \<open>load\<close> and
  \<open>save\<close> read and write the storage at an address, \<open>new\<close> is \<open>reflect.New\<close>. The functions
  of the package follow once more, on a store: a field handle is the address of the field's
  storage and its type; \<open>processFieldH\<close> gets the value in that storage and returns the value
  it leaves there, and what it reads and writes through a pointer is read from and written
  to the store. \<open>embed\<close> puts a value of the clock into the store. The decoding methods
  of the types act on the store (\<open>decoders\<close>); the clock and the parsers are those of \<open>env\<close>.
  Two pointer keys of a map are equal when they hold the same address.
\<close>

datatype hval =
    HBool bool
  | HInt int
  | HUint nat
  | HFloat nat
  | HString string
  | HSlice "hval list option"
  | HMap "(hval \<times> hval) list option"
  | HPtr "(nat \<times> nat list) option"
  | HStruct "hval list"
  | HOpaque nat

type_synonym addr = "nat \<times> nat list"

type_synonym store = "hval list"

fun getField :: "nat list \<Rightarrow> hval \<Rightarrow> hval option" where
  "getField [] v = Some v"
| "getField (i # p) (HStruct vs) = (if i < length vs then getField p (vs ! i) else None)"
| "getField (i # p) v = None"

fun putField :: "nat list \<Rightarrow> hval \<Rightarrow> hval \<Rightarrow> hval" where
  "putField [] x v = x"
| "putField (i # p) x (HStruct vs) =
     (if i < length vs then HStruct (vs[i := putField p x (vs ! i)]) else HStruct vs)"
| "putField (i # p) x v = v"

definition load :: "store \<Rightarrow> addr \<Rightarrow> hval option" where
  "load h a = (if fst a < length h then getField (snd a) (h ! fst a) else None)"

definition save :: "store \<Rightarrow> addr \<Rightarrow> hval \<Rightarrow> store" where
  "save h a x = (if fst a < length h then h[fst a := putField (snd a) x (h ! fst a)] else h)"

definition new :: "store \<Rightarrow> hval \<Rightarrow> addr \<times> store" where
  "new h x = ((length h, []), h @ [x])"

fun zeroH :: "gtype \<Rightarrow> hval" and zerosH :: "structField list \<Rightarrow> hval list" where
  "zeroH (Basic k) =
     (if k = KBool then HBool False
      else if k \<in> {KInt, KInt8, KInt16, KInt32, KInt64} then HInt 0
      else if k \<in> {KUint, KUint8, KUint16, KUint32, KUint64} then HUint 0
      else if k \<in> {KFloat32, KFloat64} then HFloat 0
      else if k = KString then HString []
      else HOpaque 0)"
| "zeroH (SliceOf t) = HSlice None"
| "zeroH (MapOf k v) = HMap None"
| "zeroH (PtrTo t) = HPtr None"
| "zeroH (StructOf fs) = HStruct (zerosH fs)"
| "zeroH (Named p n t) = zeroH t"
| "zerosH [] = []"
| "zerosH (StructField n x tg t # fs) = zeroH t # zerosH fs"

fun IsZeroH :: "hval \<Rightarrow> bool" where
  "IsZeroH (HBool b) = (\<not> b)"
| "IsZeroH (HInt i) = (i = 0)"
| "IsZeroH (HUint n) = (n = 0)"
| "IsZeroH (HFloat bits) = (bits = 0)"
| "IsZeroH (HString s) = (s = [])"
| "IsZeroH (HSlice xs) = (xs = None)"
| "IsZeroH (HMap m) = (m = None)"
| "IsZeroH (HPtr p) = (p = None)"
| "IsZeroH (HStruct vs) = list_all IsZeroH vs"
| "IsZeroH (HOpaque n) = (n = 0)"

function embed :: "gval \<Rightarrow> store \<Rightarrow> hval \<times> store"
  and embeds :: "gval list \<Rightarrow> store \<Rightarrow> hval list \<times> store"
  and embedPairs :: "(gval \<times> gval) list \<Rightarrow> store \<Rightarrow> (hval \<times> hval) list \<times> store" where
  "embed (VBool b) h = (HBool b, h)"
| "embed (VInt i) h = (HInt i, h)"
| "embed (VUint n) h = (HUint n, h)"
| "embed (VFloat x) h = (HFloat x, h)"
| "embed (VString s) h = (HString s, h)"
| "embed (VOpaque n) h = (HOpaque n, h)"
| "embed (VSlice None) h = (HSlice None, h)"
| "embed (VSlice (Some xs)) h = (case embeds xs h of (ys, h1) \<Rightarrow> (HSlice (Some ys), h1))"
| "embed (VMap None) h = (HMap None, h)"
| "embed (VMap (Some m)) h = (case embedPairs m h of (m1, h1) \<Rightarrow> (HMap (Some m1), h1))"
| "embed (VPtr None) h = (HPtr None, h)"
| "embed (VPtr (Some x)) h =
     (case embed x h of (y, h1) \<Rightarrow> (case new h1 y of (a, h2) \<Rightarrow> (HPtr (Some a), h2)))"
| "embed (VStruct xs) h = (case embeds xs h of (ys, h1) \<Rightarrow> (HStruct ys, h1))"
| "embeds [] h = ([], h)"
| "embeds (x # xs) h =
     (case embed x h of (y, h1) \<Rightarrow> (case embeds xs h1 of (ys, h2) \<Rightarrow> (y # ys, h2)))"
| "embedPairs [] h = ([], h)"
| "embedPairs ((k, v) # m) h =
     (case embed k h of (k1, h1) \<Rightarrow>
        (case embed v h1 of (v1, h2) \<Rightarrow>
           (case embedPairs m h2 of (m1, h3) \<Rightarrow> ((k1, v1) # m1, h3))))"
  by pat_completeness auto
termination
  by (relation "measure (\<lambda>s. case s of
          Inl (v, h) \<Rightarrow> size v
        | Inr (Inl (vs, h)) \<Rightarrow> size_list size vs
        | Inr (Inr (m, h)) \<Rightarrow> size_list (size_prod size size) m)")
     auto

record decoders =
  unmarshalTextH :: "gtype \<Rightarrow> (string \<Rightarrow> hval \<Rightarrow> store \<Rightarrow> gerror option \<times> hval \<times> store) option"
  unmarshalBinaryH :: "gtype \<Rightarrow> (string \<Rightarrow> hval \<Rightarrow> store \<Rightarrow> gerror option \<times> hval \<times> store) option"

definition noDecoders :: decoders where
  "noDecoders = \<lparr>unmarshalTextH = (\<lambda>t. None), unmarshalBinaryH = (\<lambda>t. None)\<rparr>"

definition setBasicH :: "env \<Rightarrow> string \<Rightarrow> gtype \<Rightarrow> hval \<Rightarrow> gerror option \<times> hval" where
  "setBasicH e val typ fld =
     (let k = Kind typ
      in if k = KString then (None, HString val)
         else if k \<in> {KInt, KInt8, KInt16, KInt32, KInt64} then
           (if k = KInt64 \<and> PkgPath typ = ''time'' \<and> Name typ = ''Duration'' then
              (case timeParseDuration e val of
                 Inl err \<Rightarrow> (Some err, fld)
               | Inr d \<Rightarrow> (None, HInt d))
            else
              (case strconvParseInt e val (Bits typ) of
                 Inl err \<Rightarrow> (Some err, fld)
               | Inr n \<Rightarrow> (None, HInt n)))
         else if k \<in> {KUint, KUint8, KUint16, KUint32, KUint64} then
           (case strconvParseUint e val (Bits typ) of
              Inl err \<Rightarrow> (Some err, fld)
            | Inr n \<Rightarrow> (None, HUint n))
         else if k = KBool then
           (case strconvParseBool e val of
              Inl err \<Rightarrow> (Some err, fld)
            | Inr b \<Rightarrow> (None, HBool b))
         else if k \<in> {KFloat32, KFloat64} then
           (case strconvParseFloat e val (Bits typ) of
              Inl err \<Rightarrow> (Some err, fld)
            | Inr x \<Rightarrow> (None, HFloat x))
         else (None, fld))"

fun sliceLoopH ::
  "(string \<Rightarrow> store \<Rightarrow> gerror option \<times> hval \<times> store) \<Rightarrow> string list \<Rightarrow> store \<Rightarrow>
     gerror option \<times> hval list \<times> store" where
  "sliceLoopH f [] h = (None, [], h)"
| "sliceLoopH f (v # vs) h =
     (case f v h of
        (Some err, x, h1) \<Rightarrow> (Some err, [], h1)
      | (None, x, h1) \<Rightarrow>
          (case sliceLoopH f vs h1 of (err, xs, h2) \<Rightarrow> (err, x # xs, h2)))"

fun keyEqH :: "hval \<Rightarrow> hval \<Rightarrow> bool" and keysEqH :: "hval list \<Rightarrow> hval list \<Rightarrow> bool" where
  "keyEqH (HFloat a) (HFloat b) =
     (\<not> floatNaN a \<and> \<not> floatNaN b \<and> (a = b \<or> a mod 2 ^ 63 = 0 \<and> b mod 2 ^ 63 = 0))"
| "keyEqH (HStruct xs) (HStruct ys) = keysEqH xs ys"
| "keyEqH (HBool a) y = (y = HBool a)"
| "keyEqH (HInt a) y = (y = HInt a)"
| "keyEqH (HUint a) y = (y = HUint a)"
| "keyEqH (HString a) y = (y = HString a)"
| "keyEqH (HSlice a) y = (y = HSlice a)"
| "keyEqH (HMap a) y = (y = HMap a)"
| "keyEqH (HPtr a) y = (y = HPtr a)"
| "keyEqH (HOpaque a) y = (y = HOpaque a)"
| "keyEqH (HFloat a) y = False"
| "keyEqH (HStruct xs) y = False"
| "keysEqH [] ys = (ys = [])"
| "keysEqH (x # xs) [] = False"
| "keysEqH (x # xs) (y # ys) = (keyEqH x y \<and> keysEqH xs ys)"

definition SetMapIndexH :: "(hval \<times> hval) list \<Rightarrow> hval \<Rightarrow> hval \<Rightarrow> (hval \<times> hval) list" where
  "SetMapIndexH mp k v =
     (if list_ex (\<lambda>kv. keyEqH (fst kv) k) mp
      then map (\<lambda>kv. if keyEqH (fst kv) k then (k, v) else kv) mp
      else mp @ [(k, v)])"

fun mapLoopH ::
  "(string \<Rightarrow> store \<Rightarrow> gerror option \<times> hval \<times> store) \<Rightarrow>
   (string \<Rightarrow> store \<Rightarrow> gerror option \<times> hval \<times> store) \<Rightarrow>
   string list \<Rightarrow> (hval \<times> hval) list \<Rightarrow> store \<Rightarrow> gerror option \<times> (hval \<times> hval) list \<times> store" where
  "mapLoopH fk fv [] mp h = (None, mp, h)"
| "mapLoopH fk fv (pair # rest) mp h =
     (case Split pair '':'' of
        [k0, v0] \<Rightarrow>
          (case fk k0 h of
             (Some err, k, h1) \<Rightarrow> (Some err, mp, h1)
           | (None, k, h1) \<Rightarrow>
               (case fv v0 h1 of
                  (Some err, v, h2) \<Rightarrow> (Some err, mp, h2)
                | (None, v, h2) \<Rightarrow> mapLoopH fk fv rest (SetMapIndexH mp k v) h2))
      | _ \<Rightarrow> (Some (ErrInvalidMapItem pair), mp, h))"

function processFieldH ::
  "env \<Rightarrow> decoders \<Rightarrow> bool \<Rightarrow> string \<Rightarrow> gtype \<Rightarrow> hval \<Rightarrow> store \<Rightarrow> fieldOptions \<Rightarrow> ParseOptions \<Rightarrow>
     gerror option \<times> hval \<times> store"
where
  "processFieldH e d settingDefault val typ fld h fOpts pOpts =
     (if isTime typ then
        (case parseTime e (layout fOpts) val of
           Inl err \<Rightarrow> (Some err, fld, h)
         | Inr tim \<Rightarrow> (case embed tim h of (x, h1) \<Rightarrow> (None, x, h1)))
      else case unmarshalTextH d typ of
        Some t \<Rightarrow> t val fld h
      | None \<Rightarrow>
     (case unmarshalBinaryH d typ of
        Some b \<Rightarrow> b val fld h
      | None \<Rightarrow>
     (let isPtr = (Kind typ = KPtr);
          typ1 = (if isPtr then Elem typ else typ);
          ah = (if isPtr then (case fld of HPtr (Some a) \<Rightarrow> (a, h) | _ \<Rightarrow> new h (zeroH typ1))
                else ((0, []), h));
          a = fst ah;
          h1 = snd ah;
          fld1 = (if isPtr then (case load h1 a of Some x \<Rightarrow> x | None \<Rightarrow> zeroH typ1) else fld);
          wrap = (\<lambda>err x hh. if isPtr then (err, HPtr (Some a), save hh a x) else (err, x, hh))
      in if settingDefault \<and> \<not> IsZeroH fld1 then wrap None fld1 h1
         else
           (case
              (case under typ1 of
                 Basic k \<Rightarrow> (case setBasicH e val typ1 fld1 of (err, x) \<Rightarrow> (err, x, h1))
               | SliceOf et \<Rightarrow>
                   (case sliceLoopH (\<lambda>v hh. processFieldH e d False v et (zeroH et) hh fOpts pOpts)
                           (Split val (Delim pOpts)) h1 of
                      (Some err, sl, h2) \<Rightarrow> (Some err, fld1, h2)
                    | (None, sl, h2) \<Rightarrow> (None, HSlice (Some sl), h2))
               | MapOf kt vt \<Rightarrow>
                   (if TrimSpace val \<noteq> [] then
                      (case mapLoopH (\<lambda>v hh. processFieldH e d False v kt (zeroH kt) hh fOpts pOpts)
                              (\<lambda>v hh. processFieldH e d False v vt (zeroH vt) hh fOpts pOpts)
                              (Split val (Delim pOpts)) [] h1 of
                         (Some err, mp, h2) \<Rightarrow> (Some err, fld1, h2)
                       | (None, mp, h2) \<Rightarrow> (None, HMap (Some mp), h2))
                    else (None, HMap (Some []), h1))
               | _ \<Rightarrow> (None, fld1, h1))
            of (err, x, h2) \<Rightarrow> wrap err x h2))))"
  by pat_completeness auto
termination
proof (relation "measure (\<lambda>(e, d, sd, val, ty, fld, h, fOpts, pOpts). tsize ty)")
  show "wf (measure (\<lambda>(e, d, sd, val, ty, fld, h, fOpts, pOpts). tsize ty))" by simp
next
  fix e :: env and d :: decoders and sd :: bool and s :: string and ty :: gtype and fld :: hval
    and h :: store and fOpts :: fieldOptions and pOpts :: ParseOptions
    and isPtr ty1 et v hh
  assume "ty1 = (if isPtr then Elem ty else ty)" and "under ty1 = SliceOf et"
  then have "tsize et < tsize ty"
    using tsize_under [of ty1] tsize_Elem [of ty] by (auto split: if_splits)
  then show "((e, d, False, v, et, zeroH et, hh, fOpts, pOpts), e, d, sd, s, ty, fld, h, fOpts, pOpts)
      \<in> measure (\<lambda>(e, d, sd, val, ty, fld, h, fOpts, pOpts). tsize ty)"
    by simp
next
  fix e :: env and d :: decoders and sd :: bool and s :: string and ty :: gtype and fld :: hval
    and h :: store and fOpts :: fieldOptions and pOpts :: ParseOptions
    and isPtr ty1 kt vt v hh
  assume "ty1 = (if isPtr then Elem ty else ty)" and "under ty1 = MapOf kt vt"
  then have "tsize kt < tsize ty"
    using tsize_under [of ty1] tsize_Elem [of ty] by (auto split: if_splits)
  then show "((e, d, False, v, kt, zeroH kt, hh, fOpts, pOpts), e, d, sd, s, ty, fld, h, fOpts, pOpts)
      \<in> measure (\<lambda>(e, d, sd, val, ty, fld, h, fOpts, pOpts). tsize ty)"
    by simp
next
  fix e :: env and d :: decoders and sd :: bool and s :: string and ty :: gtype and fld :: hval
    and h :: store and fOpts :: fieldOptions and pOpts :: ParseOptions
    and isPtr ty1 kt vt v hh
  assume "ty1 = (if isPtr then Elem ty else ty)" and "under ty1 = MapOf kt vt"
  then have "tsize vt < tsize ty"
    using tsize_under [of ty1] tsize_Elem [of ty] by (auto split: if_splits)
  then show "((e, d, False, v, vt, zeroH vt, hh, fOpts, pOpts), e, d, sd, s, ty, fld, h, fOpts, pOpts)
      \<in> measure (\<lambda>(e, d, sd, val, ty, fld, h, fOpts, pOpts). tsize ty)"
    by simp
qed

declare processFieldH.simps [simp del]

record fieldH =
  hname :: string
  haddr :: addr
  htype :: gtype
  hoptions :: fieldOptions

function drillH :: "gtype \<Rightarrow> addr \<Rightarrow> store \<Rightarrow> addr \<times> gtype \<times> store" where
  "drillH t a h =
     (case under t of
        PtrTo t1 \<Rightarrow>
          (case load h a of
             Some (HPtr (Some b)) \<Rightarrow> drillH t1 b h
           | Some (HPtr None) \<Rightarrow>
               if Kind t1 \<noteq> KStruct then (a, t, h)
               else (case new h (zeroH t1) of (b, h1) \<Rightarrow> drillH t1 b (save h1 a (HPtr (Some b))))
           | _ \<Rightarrow> (a, t, h))
      | _ \<Rightarrow> (a, t, h))"
  by pat_completeness auto
termination
  by (relation "measure (\<lambda>(t, a, h). tsize t)") (auto dest: under_PtrTo_tsize)

declare drillH.simps [simp del]

lemma tsize_drillH: "drillH t a h = (b, lt, h') \<Longrightarrow> tsize lt \<le> tsize t"
proof (induction t a h arbitrary: b lt h' rule: drillH.induct)
  case (1 t a h)
  show ?case
  proof (cases "under t")
    case (PtrTo t1)
    then have lt: "tsize t1 < tsize t" using tsize_under [of t] by simp
    show ?thesis
    proof (cases "load h a")
      case None
      with "1.prems" PtrTo show ?thesis by (subst (asm) drillH.simps) simp
    next
      case (Some x)
      show ?thesis
      proof (cases x)
        case (HPtr po)
        show ?thesis
        proof (cases po)
          case None
          show ?thesis
          proof (cases "Kind t1 \<noteq> KStruct")
            case True
            with "1.prems" PtrTo Some HPtr None show ?thesis
              by (subst (asm) drillH.simps) simp
          next
            case False
            obtain c h1 where n: "new h (zeroH t1) = (c, h1)" by (cases "new h (zeroH t1)")
            with "1.prems" PtrTo Some HPtr None False
            have d: "drillH t1 c (save h1 a (HPtr (Some c))) = (b, lt, h')"
              by (subst (asm) drillH.simps) simp
            have "tsize lt \<le> tsize t1"
              using "1.IH"(1) [OF PtrTo Some HPtr None _ n [symmetric] d] False by simp
            then show ?thesis using lt by simp
          qed
        next
          case (Some c)
          with "1.prems" PtrTo \<open>load h a = Some x\<close> HPtr
          have d: "drillH t1 c h = (b, lt, h')"
            by (subst (asm) drillH.simps) simp
          have "tsize lt \<le> tsize t1"
            using "1.IH"(2) [OF PtrTo \<open>load h a = Some x\<close> HPtr Some d] by simp
          then show ?thesis using lt by simp
        qed
      qed (use "1.prems" PtrTo Some in \<open>subst (asm) drillH.simps, simp\<close>)+
    qed
  qed (use "1.prems" in \<open>subst (asm) drillH.simps, simp\<close>)+
qed

lemma nested_tsizesH:
  assumes "(b, y) = drillH (fldType sf) a h" and "(lt, h1) = y" and "under lt = StructOf sfs1"
  shows "tsizes sfs1 < tsizes (sf # sfs)"
proof -
  from assms have d: "drillH (fldType sf) a h = (b, lt, h1)" by simp
  have "tsizes sfs1 < tsize lt" using tsize_under [of lt] assms(3) by simp
  also have "\<dots> \<le> tsize (fldType sf)" using d by (rule tsize_drillH)
  also have "\<dots> < tsizes (sf # sfs)" by (cases sf) simp
  finally show ?thesis .
qed

function extractLoopH ::
  "decoders \<Rightarrow> addr \<Rightarrow> nat \<Rightarrow> structField list \<Rightarrow> store \<Rightarrow> gerror option \<times> fieldH list \<times> store"
where
  "extractLoopH d base i [] h = (None, [], h)"
| "extractLoopH d base i (sf # sfs) h =
     (if \<not> fldExported sf \<or> fldTag sf = ''-'' then extractLoopH d base (Suc i) sfs h
      else case parseTag (fldTag sf) of
        Inl err \<Rightarrow> (Some (ErrTagField (fldName sf) err), [], h)
      | Inr fieldOpts \<Rightarrow>
     (case drillH (fldType sf) (fst base, snd base @ [i]) h of (a, lt, h1) \<Rightarrow>
        if Kind lt = KStruct \<and> unmarshalTextH d lt = None \<and> unmarshalBinaryH d lt = None then
          (case under lt of
             StructOf sfs1 \<Rightarrow>
               (case extractLoopH d a 0 sfs1 h1 of
                  (Some err, fs1, h2) \<Rightarrow> (Some (ErrWrapped err), [], h2)
                | (None, fs1, h2) \<Rightarrow>
                    (case extractLoopH d base (Suc i) sfs h2 of
                       (err, fs, h3) \<Rightarrow> (err, if err = None then fs1 @ fs else [], h3)))
           | _ \<Rightarrow> (Some (ErrWrapped ErrInvalidStruct), [], h1))
        else
          (case extractLoopH d base (Suc i) sfs h1 of
             (err, fs, h2) \<Rightarrow>
               (err,
                if err = None
                then \<lparr>hname = fldName sf, haddr = a, htype = lt, hoptions = fieldOpts\<rparr> # fs
                else [],
                h2))))"
  by pat_completeness auto
termination
  apply (relation "measure (\<lambda>(d, base, i, sfs, h). tsizes sfs)")
      apply (simp_all add: tsizes_Cons)
  apply (rule nested_tsizesH; assumption)
  done

declare extractLoopH.simps [simp del]

definition extractFieldsH ::
  "decoders \<Rightarrow> (gtype \<times> hval) option \<Rightarrow> store \<Rightarrow> gerror option \<times> fieldH list \<times> store" where
  "extractFieldsH d target h =
     (case target of
        None \<Rightarrow> (Some ErrInvalidStruct, [], h)
      | Some (t, v) \<Rightarrow>
          if Kind t \<noteq> KPtr then (Some ErrInvalidStruct, [], h)
          else (case v of
                  HPtr (Some a) \<Rightarrow>
                    (case under (Elem t) of
                       StructOf sfs \<Rightarrow> extractLoopH d a 0 sfs h
                     | _ \<Rightarrow> (Some ErrInvalidStruct, [], h))
                | _ \<Rightarrow> (Some ErrInvalidStruct, [], h)))"

definition processAtH ::
  "env \<Rightarrow> decoders \<Rightarrow> bool \<Rightarrow> string \<Rightarrow> fieldH \<Rightarrow> ParseOptions \<Rightarrow> store \<Rightarrow> gerror option \<times> store" where
  "processAtH e d settingDefault val f pOpts h =
     (case load h (haddr f) of
        None \<Rightarrow> (Some Panic, h)
      | Some v \<Rightarrow>
          (case processFieldH e d settingDefault val (htype f) v h (hoptions f) pOpts of
             (err, v', h') \<Rightarrow> (err, save h' (haddr f) v')))"

definition lookupKeyH :: "fieldH \<Rightarrow> string" where
  "lookupKeyH f = (if key (hoptions f) = [] then hname f else key (hoptions f))"

definition fieldStepH ::
  "env \<Rightarrow> decoders \<Rightarrow> urlValues \<Rightarrow> ParseOptions \<Rightarrow> fieldH \<Rightarrow> store \<Rightarrow> gerror option \<times> store" where
  "fieldStepH e d data pOpts f h =
     (case (if defaultValue (hoptions f) \<noteq> [] then
              (case processAtH e d True (defaultValue (hoptions f)) f pOpts h of
                 (Some err, h1) \<Rightarrow>
                   (Some (FieldError (hname f) (htype f) (defaultValue (hoptions f)) err), h1)
               | (None, h1) \<Rightarrow> (None, h1))
            else (None, h)) of
        (Some err, h1) \<Rightarrow> (Some err, h1)
      | (None, h1) \<Rightarrow>
          (case data (lookupKeyH f) of
             None \<Rightarrow> (None, h1)
           | Some vals \<Rightarrow>
               if vals = [] then (None, h1)
               else
                 (case processAtH e d False (inputValue pOpts vals) f pOpts h1 of
                    (Some err, h2) \<Rightarrow>
                      (Some (ParseError (hname f) (lookupKeyH f)
                               (FieldError (hname f) (htype f) (inputValue pOpts vals) err)), h2)
                  | (None, h2) \<Rightarrow> (None, h2))))"

fun fieldsLoopH ::
  "env \<Rightarrow> decoders \<Rightarrow> urlValues \<Rightarrow> ParseOptions \<Rightarrow> fieldH list \<Rightarrow> store \<Rightarrow> gerror option \<times> store" where
  "fieldsLoopH e d data pOpts [] h = (None, h)"
| "fieldsLoopH e d data pOpts (f # fs) h =
     (case fieldStepH e d data pOpts f h of
        (Some err, h1) \<Rightarrow> (Some err, h1)
      | (None, h1) \<Rightarrow> fieldsLoopH e d data pOpts fs h1)"

definition UnmarshalH ::
  "env \<Rightarrow> decoders \<Rightarrow> urlValues \<Rightarrow> (gtype \<times> hval) option \<Rightarrow> store \<Rightarrow>
     (ParseOptions \<Rightarrow> ParseOptions) list \<Rightarrow> gerror option \<times> store" where
  "UnmarshalH e d data target h setParseOpts =
     (let pOpts = applyOptions setParseOpts
      in case extractFieldsH d target h of
           (Some err, flds, h1) \<Rightarrow> (Some err, h1)
         | (None, flds, h1) \<Rightarrow>
             if flds = [] then (Some ErrNoFields, h1)
             else fieldsLoopH e d data pOpts flds h1)"

text \<open>
  A destination with a shared pointee: \<open>type T struct { A *string; B **string }\<close>, with
  \<open>t.B = &t.A\<close> and \<open>t.A\<close> nil; the target is \<open>&t\<close>, the struct \<open>t\<close> being the cell 0.
\<close>

definition sharedType :: gtype where
  "sharedType =
     StructOf [StructField ''A'' True [] (PtrTo (Basic KString)),
               StructField ''B'' True [] (PtrTo (PtrTo (Basic KString)))]"

definition sharedStore :: store where
  "sharedStore = [HStruct [HPtr None, HPtr (Some (0, [0]))]]"

definition sharedTarget :: "(gtype \<times> hval) option" where
  "sharedTarget = Some (PtrTo sharedType, HPtr (Some (0, [])))"

lemma find_space_left:
  "c \<in> asciiSpaces \<Longrightarrow> find (\<lambda>p. p \<noteq> [] \<and> prefix p (c # s)) spaceRunes = Some [c]"
  unfolding asciiSpaces_def spaceRunes_def by (elim insertE emptyE) simp_all

lemma find_space_right:
  "c \<in> asciiSpaces \<Longrightarrow> find (\<lambda>p. p \<noteq> [] \<and> prefix p (c # s)) (map rev spaceRunes) = Some [c]"
  unfolding asciiSpaces_def spaceRunes_def by (elim insertE emptyE) simp_all

lemma trimRunes_spaces_left:
  "set w \<subseteq> asciiSpaces \<Longrightarrow> trimRunes spaceRunes (w @ s) = trimRunes spaceRunes s"
proof (induction w)
  case Nil
  show ?case by simp
next
  case (Cons c w)
  then have "c \<in> asciiSpaces" by simp
  then have "trimRunes spaceRunes (c # w @ s) = trimRunes spaceRunes (w @ s)"
    by (subst trimRunes.simps) (simp add: find_space_left)
  with Cons show ?case by simp
qed

lemma trimRunes_spaces_right:
  "set w \<subseteq> asciiSpaces \<Longrightarrow>
     trimRunes (map rev spaceRunes) (w @ s) = trimRunes (map rev spaceRunes) s"
proof (induction w)
  case Nil
  show ?case by simp
next
  case (Cons c w)
  then have "c \<in> asciiSpaces" by simp
  then have "trimRunes (map rev spaceRunes) (c # w @ s) = trimRunes (map rev spaceRunes) (w @ s)"
    by (subst trimRunes.simps) (simp add: find_space_right)
  with Cons show ?case by simp
qed

lemma trimRunes_no_lead:
  assumes "s \<noteq> []" and "hd s \<notin> hd ` set ps"
  shows "trimRunes ps s = s"
proof -
  have "find (\<lambda>p. p \<noteq> [] \<and> prefix p s) ps = None"
  proof (rule ccontr)
    assume "find (\<lambda>p. p \<noteq> [] \<and> prefix p s) ps \<noteq> None"
    then obtain p where "p \<in> set ps" and "p \<noteq> []" and "prefix p s"
      by (auto simp: find_None_iff)
    then have "hd p = hd s"
      by (auto simp: prefix_def)
    with \<open>p \<in> set ps\<close> assms(2) show False by (metis imageI)
  qed
  then show ?thesis by (subst trimRunes.simps) simp
qed

lemma trimRunes_nil: "trimRunes ps [] = []"
  by (subst trimRunes.simps) (auto split: option.splits simp: find_Some_iff)

lemma TrimSpace_padded:
  assumes "trimmed s" and "set w1 \<subseteq> asciiSpaces" and "set w2 \<subseteq> asciiSpaces"
  shows "TrimSpace (w1 @ s @ w2) = s"
proof -
  from assms(1) have ne: "s \<noteq> []" and l: "hd s \<notin> hd ` set spaceRunes"
    and r: "last s \<notin> last ` set spaceRunes"
    by (auto simp: trimmed_def)
  have "trimRunes spaceRunes (w1 @ s @ w2) = trimRunes spaceRunes (s @ w2)"
    using assms(2) by (rule trimRunes_spaces_left)
  also have "\<dots> = s @ w2"
    using ne l by (intro trimRunes_no_lead) auto
  finally have left: "trimRunes spaceRunes (w1 @ s @ w2) = s @ w2" .
  have "trimRunes (map rev spaceRunes) (rev w2 @ rev s) = trimRunes (map rev spaceRunes) (rev s)"
    using assms(3) by (intro trimRunes_spaces_right) simp
  also have "\<dots> = rev s"
  proof (rule trimRunes_no_lead)
    show "rev s \<noteq> []" using ne by simp
    have "hd ` set (map rev spaceRunes) = last ` set spaceRunes"
      by (auto simp: spaceRunes_def)
    with r ne show "hd (rev s) \<notin> hd ` set (map rev spaceRunes)"
      by (simp add: hd_rev)
  qed
  finally show ?thesis
    by (simp add: TrimSpace_def left)
qed

lemma TrimSpace_spaces:
  assumes "set w \<subseteq> asciiSpaces"
  shows "TrimSpace w = []"
proof -
  have "trimRunes spaceRunes (w @ []) = trimRunes spaceRunes []"
    using assms by (rule trimRunes_spaces_left)
  then show ?thesis by (simp add: TrimSpace_def trimRunes_nil)
qed

lemma splitOn_none:
  "c \<notin> set a \<Longrightarrow> splitOn [c] acc a = [acc @ a]"
  by (induction a arbitrary: acc) auto

lemma splitOn_first:
  "c \<notin> set a \<Longrightarrow> splitOn [c] acc (a @ c # rest) = (acc @ a) # splitOn [c] [] rest"
  by (induction a arbitrary: acc) auto

lemma splitNOn_none:
  "c \<notin> set a \<Longrightarrow> splitNOn [c] n acc a = [acc @ a]"
  by (induction a arbitrary: acc) auto

lemma splitNOn_first:
  "c \<notin> set a \<Longrightarrow> splitNOn [c] 2 acc (a @ c # rest) = [acc @ a, rest]"
proof (induction a arbitrary: acc)
  case Nil
  show ?case by (cases rest) auto
next
  case (Cons x a)
  then show ?case by auto
qed

lemma SplitN_no_sep: "c \<notin> set a \<Longrightarrow> SplitN a [c] 2 = [a]"
  by (simp add: SplitN_def splitNOn_none)

lemma SplitN_first: "c \<notin> set a \<Longrightarrow> SplitN (a @ c # rest) [c] 2 = [a, rest]"
  by (simp add: SplitN_def splitNOn_first)

lemma splitNOn_nonempty: "splitNOn sep n acc s \<noteq> []"
  by (induction sep n acc s rule: splitNOn.induct) auto

lemma SplitN_colon_nonempty: "SplitN s '':'' 2 \<noteq> []"
  by (simp add: SplitN_def splitNOn_nonempty)

lemma Join_Cons: "Join (x # xs) sep = x @ concat (map (\<lambda>y. sep @ y) xs)"
  by (induction xs arbitrary: x) auto

lemma splitOn_Join:
  "xs \<noteq> [] \<Longrightarrow> \<forall>x \<in> set xs. c \<notin> set x \<Longrightarrow> splitOn [c] [] (Join xs [c]) = xs"
proof (induction xs)
  case Nil
  then show ?case by simp
next
  case (Cons x xs)
  then have cx: "c \<notin> set x" by simp
  show ?case
  proof (cases xs)
    case Nil
    then show ?thesis using cx by (simp add: splitOn_none)
  next
    case (Cons y ys)
    then have "splitOn [c] [] (Join xs [c]) = xs" using Cons.IH Cons.prems by simp
    moreover have "Join (x # xs) [c] = x @ c # Join xs [c]" using Cons by simp
    ultimately show ?thesis using splitOn_first [OF cx, of "[]" "Join xs [c]"] by simp
  qed
qed

lemma Split_Join:
  assumes "xs \<noteq> []" and "\<forall>x \<in> set xs. c \<notin> set x"
  shows "Split (Join xs [c]) [c] = xs"
  using splitOn_Join [OF assms] by (simp add: Split_def)

lemma find_rune_left:
  "r \<in> set spaceRunes \<Longrightarrow> find (\<lambda>p. p \<noteq> [] \<and> prefix p (r @ s)) spaceRunes = Some r"
  unfolding spaceRunes_def by (simp only: set_simps) (elim insertE emptyE; simp)

lemma find_rune_right:
  "r \<in> set spaceRunes \<Longrightarrow>
     find (\<lambda>p. p \<noteq> [] \<and> prefix p (rev r @ s)) (map rev spaceRunes) = Some (rev r)"
  unfolding spaceRunes_def by (simp only: set_simps) (elim insertE emptyE; simp)

lemma rune_nonempty: "r \<in> set spaceRunes \<Longrightarrow> r \<noteq> []"
  by (auto simp: spaceRunes_def)

lemma trimRunes_runes_left:
  "set rs \<subseteq> set spaceRunes \<Longrightarrow> trimRunes spaceRunes (concat rs @ s) = trimRunes spaceRunes s"
proof (induction rs)
  case Nil
  show ?case by simp
next
  case (Cons r rs)
  then have r: "r \<in> set spaceRunes" by simp
  have "trimRunes spaceRunes (r @ concat rs @ s) = trimRunes spaceRunes (concat rs @ s)"
    by (subst trimRunes.simps) (simp add: find_rune_left [OF r])
  with Cons show ?case by simp
qed

lemma trimRunes_runes_right:
  "set rs \<subseteq> set spaceRunes \<Longrightarrow>
     trimRunes (map rev spaceRunes) (rev (concat rs) @ s) = trimRunes (map rev spaceRunes) s"
proof (induction rs rule: rev_induct)
  case Nil
  show ?case by simp
next
  case (snoc r rs)
  then have r: "r \<in> set spaceRunes" by simp
  have "trimRunes (map rev spaceRunes) (rev r @ rev (concat rs) @ s)
      = trimRunes (map rev spaceRunes) (rev (concat rs) @ s)"
    by (subst trimRunes.simps) (simp add: find_rune_right [OF r])
  with snoc show ?case by simp
qed


lemma trimRunes_drop: "\<exists>k. trimRunes ps s = drop k s"
proof (induction ps s rule: trimRunes.induct)
  case (1 ps s)
  show ?case
  proof (cases "find (\<lambda>p. p \<noteq> [] \<and> prefix p s) ps")
    case None
    then have "trimRunes ps s = drop 0 s" by (subst trimRunes.simps) simp
    then show ?thesis by blast
  next
    case (Some p)
    from "1.IH" [OF Some] obtain k where "trimRunes ps (drop (length p) s) = drop k (drop (length p) s)"
      by blast
    then have "trimRunes ps s = drop (k + length p) s"
      using Some by (subst trimRunes.simps) (simp add: add.commute)
    then show ?thesis by blast
  qed
qed

lemma trimRunes_length: "length (trimRunes ps s) \<le> length s"
  using trimRunes_drop [of ps s] by auto

lemma trimRunes_same_length:
  assumes "length (trimRunes ps s) = length s"
  shows "trimRunes ps s = s"
proof -
  obtain k where k: "trimRunes ps s = drop k s" using trimRunes_drop by blast
  with assms have "length s - k = length s" by simp
  then have "k = 0 \<or> length s = 0" by arith
  with k show ?thesis by auto
qed

lemma coreStr_stable:
  assumes "coreStr n"
  shows "trimRunes spaceRunes n = n" and "trimRunes (map rev spaceRunes) (rev n) = rev n"
proof -
  let ?a = "trimRunes spaceRunes n"
  let ?b = "trimRunes (map rev spaceRunes) (rev ?a)"
  from assms have "rev ?b = n" by (simp add: coreStr_def TrimSpace_def)
  then have "length ?b = length n" by (metis length_rev)
  moreover have "length ?b \<le> length ?a" using trimRunes_length [of _ "rev ?a"] by simp
  moreover have "length ?a \<le> length n" by (rule trimRunes_length)
  ultimately have la: "length ?a = length n" by simp
  then show a: "?a = n" by (rule trimRunes_same_length)
  from \<open>rev ?b = n\<close> a show "trimRunes (map rev spaceRunes) (rev n) = rev n"
    by (metis rev_rev_ident)
qed

lemma rune_tail_bytes:
  "p \<in> set spaceRunes \<Longrightarrow> c \<in> set (tl p) \<Longrightarrow> c \<notin> hd ` set spaceRunes"
  unfolding spaceRunes_def by (simp only: set_simps) (elim insertE emptyE; auto)

lemma spaces_hd:
  assumes "spaces r" and "r \<noteq> []"
  shows "hd r \<in> hd ` set spaceRunes"
proof -
  from assms(1) obtain rs where rs: "set rs \<subseteq> set spaceRunes" "r = concat rs"
    unfolding spaces_def by blast
  with assms(2) obtain x xs where "rs = x # xs" by (cases rs) auto
  with rs have "x \<in> set spaceRunes" "r = x @ concat xs" by simp_all
  moreover from this have "x \<noteq> []" using rune_nonempty by simp
  ultimately show ?thesis by auto
qed

lemma trimRunes_core_left:
  assumes "trimRunes spaceRunes n = n" and "n \<noteq> []" and "spaces r"
  shows "trimRunes spaceRunes (n @ r) = n @ r"
proof -
  have "find (\<lambda>p. p \<noteq> [] \<and> prefix p (n @ r)) spaceRunes = None"
  proof (rule ccontr)
    assume "find (\<lambda>p. p \<noteq> [] \<and> prefix p (n @ r)) spaceRunes \<noteq> None"
    then obtain p where p: "p \<in> set spaceRunes" "p \<noteq> []" "prefix p (n @ r)"
      by (auto simp: find_None_iff)
    show False
    proof (cases "prefix p n")
      case True
      with p have "find (\<lambda>p. p \<noteq> [] \<and> prefix p n) spaceRunes \<noteq> None"
        by (auto simp: find_None_iff)
      then obtain q where q: "find (\<lambda>p. p \<noteq> [] \<and> prefix p n) spaceRunes = Some q" by auto
      then have qn: "q \<noteq> []" by (auto simp: find_Some_iff)
      from q have "trimRunes spaceRunes n = trimRunes spaceRunes (drop (length q) n)"
        by (subst trimRunes.simps) simp
      then have "length (trimRunes spaceRunes n) \<le> length (drop (length q) n)"
        using trimRunes_length [of spaceRunes "drop (length q) n"] by simp
      moreover have "Suc 0 \<le> length q" "Suc 0 \<le> length n"
        using qn assms(2) by (simp_all add: Suc_le_eq)
      moreover have "length (drop (length q) n) = length n - length q" by simp
      ultimately have "length (trimRunes spaceRunes n) < length n" by arith
      with assms(1) show False by simp
    next
      case False
      with p(3) obtain us where us: "p = n @ us" "prefix us r"
        by (auto simp: prefix_append)
      with False have une: "us \<noteq> []" by auto
      with us(2) have rne: "r \<noteq> []" by auto
      from us(2) une have "hd us = hd r" by (auto simp: prefix_def)
      with spaces_hd [OF assms(3) rne] have "hd us \<in> hd ` set spaceRunes" by simp
      moreover have "hd us \<in> set (tl p)" using us(1) assms(2) une by (cases n) auto
      ultimately show False using rune_tail_bytes [OF p(1)] by blast
    qed
  qed
  then show ?thesis by (subst trimRunes.simps) simp
qed

lemma TrimSpace_spaces_gen:
  assumes "spaces w"
  shows "TrimSpace w = []"
proof -
  from assms obtain rs where rs: "set rs \<subseteq> set spaceRunes" "w = concat rs"
    unfolding spaces_def by blast
  have "trimRunes spaceRunes (concat rs @ []) = trimRunes spaceRunes []"
    using rs(1) by (rule trimRunes_runes_left)
  then show ?thesis by (simp add: TrimSpace_def rs(2) trimRunes_nil)
qed

lemma spaces_append: "spaces l \<Longrightarrow> spaces r \<Longrightarrow> spaces (l @ r)"
  unfolding spaces_def
proof (elim exE conjE)
  fix ls rs
  assume "set ls \<subseteq> set spaceRunes" "l = concat ls" "set rs \<subseteq> set spaceRunes" "r = concat rs"
  then show "\<exists>xs. set xs \<subseteq> set spaceRunes \<and> l @ r = concat xs"
    by (intro exI [of _ "ls @ rs"]) simp
qed

lemma TrimSpace_core_padded:
  assumes "coreStr n" and "spaces l" and "spaces r"
  shows "TrimSpace (l @ n @ r) = n"
proof (cases "n = []")
  case True
  then show ?thesis using TrimSpace_spaces_gen [OF spaces_append [OF assms(2,3)]] by simp
next
  case False
  from assms(2) obtain ls where ls: "set ls \<subseteq> set spaceRunes" "l = concat ls"
    unfolding spaces_def by blast
  from assms(3) obtain rs where rs: "set rs \<subseteq> set spaceRunes" "r = concat rs"
    unfolding spaces_def by blast
  note st = coreStr_stable [OF assms(1)]
  have "trimRunes spaceRunes (l @ n @ r) = trimRunes spaceRunes (n @ r)"
    unfolding ls(2) using ls(1) by (rule trimRunes_runes_left)
  also have "\<dots> = n @ r" using st(1) False assms(3) by (rule trimRunes_core_left)
  finally have left: "trimRunes spaceRunes (l @ n @ r) = n @ r" .
  have "trimRunes (map rev spaceRunes) (rev (concat rs) @ rev n)
      = trimRunes (map rev spaceRunes) (rev n)"
    using rs(1) by (rule trimRunes_runes_right)
  then have "trimRunes (map rev spaceRunes) (rev (n @ r)) = rev n"
    using st(2) by (simp add: rs(2))
  then show ?thesis by (simp add: TrimSpace_def left)
qed

lemma spaces_no_punct:
  assumes "spaces w"
  shows "CHR '','' \<notin> set w \<and> CHR '':'' \<notin> set w"
proof -
  from assms obtain rs where rs: "set rs \<subseteq> set spaceRunes" "w = concat rs"
    unfolding spaces_def by blast
  have "\<And>r. r \<in> set spaceRunes \<Longrightarrow> CHR '','' \<notin> set r \<and> CHR '':'' \<notin> set r"
    unfolding spaceRunes_def by (simp only: set_simps) (elim insertE emptyE; simp)
  with rs show ?thesis by auto
qed

lemma trimRunes_split: "\<exists>rs. set rs \<subseteq> set ps \<and> s = concat rs @ trimRunes ps s"
proof (induction ps s rule: trimRunes.induct)
  case (1 ps s)
  show ?case
  proof (cases "find (\<lambda>p. p \<noteq> [] \<and> prefix p s) ps")
    case None
    then have "trimRunes ps s = s" by (subst trimRunes.simps) simp
    then show ?thesis by (intro exI [of _ "[]"]) simp
  next
    case (Some p)
    then have p: "p \<in> set ps" "prefix p s" by (auto simp: find_Some_iff)
    from "1.IH" [OF Some] obtain rs where rs: "set rs \<subseteq> set ps"
      "drop (length p) s = concat rs @ trimRunes ps (drop (length p) s)" by blast
    have t: "trimRunes ps s = trimRunes ps (drop (length p) s)"
      using Some by (subst trimRunes.simps) simp
    from p(2) have "s = p @ drop (length p) s" by (auto simp: prefix_def)
    with rs(2) t have "s = concat (p # rs) @ trimRunes ps s" by simp
    with rs(1) p(1) show ?thesis by (intro exI [of _ "p # rs"]) simp
  qed
qed

lemma trimRunes_find_none:
  "find (\<lambda>p. p \<noteq> [] \<and> prefix p (trimRunes ps s)) ps = None"
proof (induction ps s rule: trimRunes.induct)
  case (1 ps s)
  show ?case
  proof (cases "find (\<lambda>p. p \<noteq> [] \<and> prefix p s) ps")
    case None
    then have "trimRunes ps s = s" by (subst trimRunes.simps) simp
    with None show ?thesis by simp
  next
    case (Some p)
    have "trimRunes ps s = trimRunes ps (drop (length p) s)"
      using Some by (subst trimRunes.simps) simp
    with "1.IH" [OF Some] show ?thesis by simp
  qed
qed

lemma trimRunes_idem: "trimRunes ps (trimRunes ps s) = trimRunes ps s"
  using trimRunes_find_none [of ps s] by (subst trimRunes.simps) simp

lemma TrimSpace_decompose:
  "\<exists>l r. spaces l \<and> spaces r \<and> s = l @ TrimSpace s @ r \<and> coreStr (TrimSpace s)"
proof -
  define a where "a = trimRunes spaceRunes s"
  define b where "b = trimRunes (map rev spaceRunes) (rev a)"
  have ts: "TrimSpace s = rev b" by (simp add: TrimSpace_def a_def b_def)
  obtain ls where ls: "set ls \<subseteq> set spaceRunes" "s = concat ls @ a"
    unfolding a_def using trimRunes_split by blast
  obtain rs where rs: "set rs \<subseteq> set (map rev spaceRunes)" "rev a = concat rs @ b"
    unfolding b_def using trimRunes_split by blast
  have "rev (rev a) = rev (concat rs @ b)" using rs(2) by simp
  then have a: "a = rev b @ concat (map rev (rev rs))" by (simp add: rev_concat)
  have "set (map rev (rev rs)) \<subseteq> set spaceRunes" using rs(1) by auto
  then have sr: "spaces (concat (map rev (rev rs)))" unfolding spaces_def by blast
  have sl: "spaces (concat ls)" unfolding spaces_def using ls(1) by blast
  have left: "trimRunes spaceRunes (rev b) = rev b"
  proof (cases "rev b = []")
    case True
    then show ?thesis by (simp add: trimRunes_nil)
  next
    case False
    have "find (\<lambda>p. p \<noteq> [] \<and> prefix p (rev b)) spaceRunes = None"
    proof (rule ccontr)
      assume "find (\<lambda>p. p \<noteq> [] \<and> prefix p (rev b)) spaceRunes \<noteq> None"
      then obtain p where p: "p \<in> set spaceRunes" "p \<noteq> []" "prefix p (rev b)"
        by (auto simp: find_None_iff)
      then have "prefix p a" using a by (metis prefix_prefix)
      with p(1,2) have "find (\<lambda>p. p \<noteq> [] \<and> prefix p a) spaceRunes \<noteq> None"
        by (auto simp: find_None_iff)
      then show False unfolding a_def by (simp add: trimRunes_find_none)
    qed
    then show ?thesis by (subst trimRunes.simps) simp
  qed
  have "trimRunes (map rev spaceRunes) (rev (rev b)) = b"
    by (simp add: b_def trimRunes_idem)
  with left have "TrimSpace (rev b) = rev b" by (simp add: TrimSpace_def)
  then have "coreStr (TrimSpace s)" by (simp add: coreStr_def ts)
  moreover have "s = concat ls @ TrimSpace s @ concat (map rev (rev rs))"
    using ls(2) a ts by simp
  ultimately show ?thesis using sl sr by blast
qed

lemma comma_pieces:
  "\<exists>xs. xs \<noteq> [] \<and> (\<forall>x \<in> set xs. c \<notin> set x) \<and> s = Join xs [c]"
proof (induction s)
  case Nil
  show ?case by (intro exI [of _ "[[]]"]) simp
next
  case (Cons d s)
  then obtain x xs where xs: "\<forall>y \<in> set (x # xs). c \<notin> set y" "s = Join (x # xs) [c]"
    by (metis list.exhaust)
  show ?case
  proof (cases "d = c")
    case True
    with xs show ?thesis by (intro exI [of _ "[] # x # xs"]) simp
  next
    case False
    with xs show ?thesis by (intro exI [of _ "(d # x) # xs"]) (simp add: Join_Cons)
  qed
qed

lemma splitNOn_two:
  "splitNOn [c] 2 acc s = [a, b] \<Longrightarrow> \<exists>a'. a = acc @ a' \<and> s = a' @ c # b \<and> c \<notin> set a'"
proof (induction s arbitrary: acc)
  case Nil
  then show ?case by simp
next
  case (Cons x s)
  show ?case
  proof (cases "x = c")
    case True
    with Cons.prems have "a = acc" and "splitNOn [c] 1 [] s = [b]" by auto
    moreover have "splitNOn [c] 1 [] s = [s]" by (cases s) auto
    ultimately show ?thesis using True by auto
  next
    case False
    with Cons.prems have "splitNOn [c] 2 (acc @ [x]) s = [a, b]" by auto
    from Cons.IH [OF this] obtain a' where "a = (acc @ [x]) @ a'" "s = a' @ c # b" "c \<notin> set a'"
      by blast
    with False show ?thesis
      by (intro exI [of _ "x # a'"]) auto
  qed
qed

lemma SplitN_two:
  "SplitN s [c] 2 = [a, b] \<Longrightarrow> s = a @ c # b \<and> c \<notin> set a"
  using splitNOn_two [of c "[]" s a b] by (auto simp: SplitN_def)

lemma parseTagParts_missing_value:
  assumes "seg \<in> set parts" and "emptyValueSegment seg name"
  shows "\<exists>seg' \<in> set parts. \<exists>name'. emptyValueSegment seg' name' \<and>
           parseTagParts i parts fOpts = Inl (ErrTagMissingValue (TrimSpace name'))"
  using assms(1)
proof (induction parts arbitrary: i fOpts)
  case Nil
  then show ?case by simp
next
  case (Cons part rest)
  consider (none) "SplitN part '':'' 2 = []"
    | (one) v0 where "SplitN part '':'' 2 = [v0]"
    | (two) v0 v1 where "SplitN part '':'' 2 = [v0, v1]"
    | (more) v0 v1 v2 vs where "SplitN part '':'' 2 = v0 # v1 # v2 # vs"
    by (cases "SplitN part '':'' 2" rule: list.exhaust) (auto simp: neq_Nil_conv, metis list.exhaust)
  then show ?case
  proof cases
    case none
    then show ?thesis using SplitN_colon_nonempty by blast
  next
    case one
    have "seg \<noteq> part"
    proof
      assume "seg = part"
      with assms(2) obtain ws where "part = name @ CHR '':'' # ws" "CHR '':'' \<notin> set name"
        by (auto simp: emptyValueSegment_def)
      then have "SplitN part '':'' 2 = [name, ws]" by (simp add: SplitN_first)
      with one show False by simp
    qed
    with Cons.prems have "seg \<in> set rest" by simp
    from Cons.IH [OF this] show ?thesis using one by (simp add: Let_def)
  next
    case two
    show ?thesis
    proof (cases "TrimSpace v1 = []")
      case True
      from SplitN_two [OF two] have "emptyValueSegment part v0"
        using True by (auto simp: emptyValueSegment_def)
      then show ?thesis using two True by (auto simp: Let_def)
    next
      case False
      have "seg \<noteq> part"
      proof
        assume "seg = part"
        with assms(2) obtain ws where "part = name @ CHR '':'' # ws" "CHR '':'' \<notin> set name"
          "TrimSpace ws = []"
          by (auto simp: emptyValueSegment_def)
        then have "SplitN part '':'' 2 = [name, ws]" by (simp add: SplitN_first)
        with two False \<open>TrimSpace ws = []\<close> show False by simp
      qed
      with Cons.prems have "seg \<in> set rest" by simp
      from Cons.IH [OF this] show ?thesis using two False by (simp add: Let_def)
    qed
  next
    case more
    have "seg \<noteq> part"
    proof
      assume "seg = part"
      with assms(2) obtain ws where "part = name @ CHR '':'' # ws" "CHR '':'' \<notin> set name"
        by (auto simp: emptyValueSegment_def)
      then have "SplitN part '':'' 2 = [name, ws]" by (simp add: SplitN_first)
      with more show False by simp
    qed
    with Cons.prems have "seg \<in> set rest" by simp
    from Cons.IH [OF this] show ?thesis using more by (simp add: Let_def)
  qed
qed

text \<open>
  Claim C8. A directive with a segment \<open>name:value\<close> whose value is empty after the colon
  (or holds white space only) makes \<open>parseTag\<close> fail with the missing-value error, whatever
  the name of the segment is, recognised or not: the error names the (trimmed) name of a
  segment with an empty value. The empty directive gives the empty options, with no error.
\<close>

theorem parseTag_missing_value:
  "parseTag [] = Inr noOptions \<and>
   (\<forall>seg name. seg \<in> set (Split tagStr '','') \<and> emptyValueSegment seg name \<longrightarrow>
      (\<exists>seg' \<in> set (Split tagStr '',''). \<exists>name'. emptyValueSegment seg' name' \<and>
         parseTag tagStr = Inl (ErrTagMissingValue (TrimSpace name'))))"
proof (intro conjI allI impI)
  show "parseTag [] = Inr noOptions" by (simp add: parseTag_def)
next
  fix seg name
  assume a: "seg \<in> set (Split tagStr '','') \<and> emptyValueSegment seg name"
  have "tagStr \<noteq> []"
  proof
    assume "tagStr = []"
    with a show False by (auto simp: Split_def emptyValueSegment_def)
  qed
  then show "\<exists>seg' \<in> set (Split tagStr '',''). \<exists>name'. emptyValueSegment seg' name' \<and>
         parseTag tagStr = Inl (ErrTagMissingValue (TrimSpace name'))"
    using parseTagParts_missing_value [of seg "Split tagStr '',''" name 0 noOptions] a
    by (simp add: parseTag_def)
qed

theorem parseTag_missing_value_witness:
  "parseTag [] = Inr noOptions \<and>
   parseTag ''myName,layout:,default:7'' = Inl (ErrTagMissingValue ''layout'') \<and>
   parseTag ''k, unknown :  '' = Inl (ErrTagMissingValue ''unknown'')"
proof -
  have s: "''layout:'' \<in> set (Split ''myName,layout:,default:7'' '','')"
    by (simp add: Split_def)
  have e: "emptyValueSegment ''layout:'' ''layout''"
    unfolding emptyValueSegment_def by (intro exI [of _ "[]"]) (simp add: TrimSpace_spaces)
  from parseTag_missing_value [of "''myName,layout:,default:7''"] s e
  have "\<exists>seg' \<in> set (Split ''myName,layout:,default:7'' '',''). \<exists>name'.
          emptyValueSegment seg' name' \<and>
          parseTag ''myName,layout:,default:7'' = Inl (ErrTagMissingValue (TrimSpace name'))"
    by blast
  moreover have "parseTag [] = Inr noOptions" by (simp add: parseTag_def)
  moreover have "parseTag ''myName,layout:,default:7'' = Inl (ErrTagMissingValue ''layout'')"
    by code_simp
  moreover have "parseTag ''k, unknown :  '' = Inl (ErrTagMissingValue ''unknown'')"
    by code_simp
  ultimately show ?thesis by blast
qed

lemma segText_no_comma: "segOK sg \<Longrightarrow> CHR '','' \<notin> set (segText sg)"
  using spaces_no_punct by (cases sg) auto

lemma parseTagParts_segments:
  "\<forall>sg \<in> set segs. segOK sg \<Longrightarrow>
     parseTagParts i (map segText segs) fOpts = readOptions i (map segCore segs) fOpts"
proof (induction segs arbitrary: i fOpts)
  case Nil
  show ?case by simp
next
  case (Cons sg segs)
  then have ih: "\<And>i fOpts. parseTagParts i (map segText segs) fOpts
      = readOptions i (map segCore segs) fOpts"
    by simp
  from Cons.prems have ok: "segOK sg" by simp
  show ?case
  proof (cases sg)
    case (KeySeg l n r)
    with ok have h: "spaces l" "spaces r" "coreStr n" "CHR '':'' \<notin> set n" by simp_all
    have "CHR '':'' \<notin> set (l @ n @ r)" using h spaces_no_punct by auto
    then have sp: "SplitN (l @ n @ r) '':'' 2 = [l @ n @ r]" by (rule SplitN_no_sep)
    have tr: "TrimSpace (l @ n @ r) = n" using h(3,1,2) by (rule TrimSpace_core_padded)
    show ?thesis by (simp add: KeySeg sp tr ih del: append_assoc)
  next
    case (OptSeg l n r l' v r')
    with ok have h: "spaces l" "spaces r" "coreStr n" "CHR '':'' \<notin> set n"
      "spaces l'" "spaces r'" "coreStr v"
      by simp_all
    define nm where "nm = l @ n @ r"
    define vl where "vl = l' @ v @ r'"
    have "CHR '':'' \<notin> set nm" using h spaces_no_punct by (auto simp: nm_def)
    then have sp: "SplitN (nm @ CHR '':'' # vl) '':'' 2 = [nm, vl]" by (rule SplitN_first)
    have t1: "TrimSpace nm = n" unfolding nm_def using h(3,1,2) by (rule TrimSpace_core_padded)
    have t2: "TrimSpace vl = v" unfolding vl_def using h(7,5,6) by (rule TrimSpace_core_padded)
    have tx: "segText sg = nm @ CHR '':'' # vl" by (simp add: OptSeg nm_def vl_def)
    have "parseTagParts i (segText sg # map segText segs) fOpts
        = readOptions i (segCore sg # map segCore segs) fOpts"
      unfolding tx by (simp add: sp t1 t2 ih OptSeg)
    then show ?thesis by simp
  qed
qed

lemma piece_segment:
  assumes "CHR '','' \<notin> set t"
  shows "\<exists>sg. segOK sg \<and> segText sg = t"
proof (cases "CHR '':'' \<in> set t")
  case False
  obtain l r where d: "spaces l" "spaces r" "t = l @ TrimSpace t @ r" "coreStr (TrimSpace t)"
    using TrimSpace_decompose by blast
  have "set (TrimSpace t) \<subseteq> set t" by (subst (2) d(3)) auto
  with assms False d have "segOK (KeySeg l (TrimSpace t) r)" by auto
  moreover have "segText (KeySeg l (TrimSpace t) r) = t" using d(3) by simp
  ultimately show ?thesis by blast
next
  case True
  then obtain a b where ab: "t = a @ CHR '':'' # b" "CHR '':'' \<notin> set a"
    by (metis split_list_first)
  obtain l r where d: "spaces l" "spaces r" "a = l @ TrimSpace a @ r" "coreStr (TrimSpace a)"
    using TrimSpace_decompose by blast
  obtain l' r' where e: "spaces l'" "spaces r'" "b = l' @ TrimSpace b @ r'"
    "coreStr (TrimSpace b)"
    using TrimSpace_decompose by blast
  have "set (TrimSpace a) \<subseteq> set a" by (subst (2) d(3)) auto
  moreover have "set (TrimSpace b) \<subseteq> set b" by (subst (2) e(3)) auto
  ultimately have "segOK (OptSeg l (TrimSpace a) r l' (TrimSpace b) r')"
    using assms ab d e by auto
  moreover have "segText (OptSeg l (TrimSpace a) r l' (TrimSpace b) r') = t"
    using ab(1) d(3) e(3) by simp
  ultimately show ?thesis by blast
qed

lemma pieces_segments:
  "\<forall>x \<in> set xs. CHR '','' \<notin> set x \<Longrightarrow>
     \<exists>segs. (\<forall>sg \<in> set segs. segOK sg) \<and> map segText segs = xs"
proof (induction xs)
  case Nil
  show ?case by simp
next
  case (Cons x xs)
  then obtain segs where s: "\<forall>sg \<in> set segs. segOK sg" "map segText segs = xs" by auto
  from Cons.prems obtain sg where g: "segOK sg" "segText sg = x"
    using piece_segment by auto
  with s show ?case by (intro exI [of _ "sg # segs"]) simp
qed

lemma directive_segments:
  "\<exists>segs. segs \<noteq> [] \<and> (\<forall>sg \<in> set segs. segOK sg) \<and> tagStr = Join (map segText segs) '',''"
proof -
  obtain xs where xs: "xs \<noteq> []" "\<forall>x \<in> set xs. CHR '','' \<notin> set x" "tagStr = Join xs '',''"
    using comma_pieces by blast
  from pieces_segments [OF xs(2)] obtain segs
    where s: "\<forall>sg \<in> set segs. segOK sg" "map segText segs = xs" by blast
  with xs(1) have "segs \<noteq> []" by auto
  with s xs(3) show ?thesis by blast
qed

text \<open>
  Claim C10. A directive is a comma-separated list of segments. A segment without a colon
  reads \<open>l n r\<close>, a segment with one reads \<open>l n r : l' v r'\<close>, where \<open>l\<close>, \<open>r\<close>, \<open>l'\<close>, \<open>r'\<close>
  are runs of white space (any sequence of the code points \<open>strings.TrimSpace\<close> removes, in
  their UTF-8 encoding) and the name \<open>n\<close> and the value \<open>v\<close> are strings that \<open>TrimSpace\<close>
  leaves as they are; every directive has such a reading (\<open>directive_segments\<close>). The
  result of \<open>parseTag\<close> is a function of the trimmed names and values alone, whatever the
  padding, for every segment, every option name and every option value: it is what
  \<open>readOptions\<close> makes of them. \<open>readOptions\<close> takes the name of the first segment as the
  key when that segment has no colon, stores a non-empty value under the option its name
  selects (\<open>default\<close>, \<open>layout\<close>; any other name is ignored) and rejects an empty value
  with the error that carries the name.
\<close>

theorem parseTag_trims:
  assumes "segs \<noteq> []" and "\<forall>sg \<in> set segs. segOK sg"
  shows "parseTag (Join (map segText segs) '','') = readOptions 0 (map segCore segs) noOptions"
proof (cases "Join (map segText segs) '','' = []")
  case False
  have "Split (Join (map segText segs) '','') '','' = map segText segs"
    using assms segText_no_comma by (intro Split_Join) auto
  with False show ?thesis
    by (simp add: parseTag_def parseTagParts_segments [OF assms(2)])
next
  case True
  obtain sg rest where sr: "segs = sg # rest" using assms(1) by (cases segs) auto
  have "rest = []"
  proof (rule ccontr)
    assume "rest \<noteq> []"
    then obtain s2 r2 where "rest = s2 # r2" by (cases rest) auto
    with sr True show False by simp
  qed
  with sr True have e: "segText sg = []" by simp
  have "segCore sg = ([], None)" using e by (cases sg) auto
  with \<open>rest = []\<close> sr True show ?thesis by (simp add: parseTag_def noOptions_def)
qed

theorem parseTag_trims_witness:
  "parseTag '' myKey , default: 42'' = Inr \<lparr>key = ''myKey'', defaultValue = ''42'', layout = []\<rparr> \<and>
   parseTag (''k,'' @ [CHR 0xC2, CHR 0xA0] @ ''layout '' @ [CHR 0x09] @ '': RFC850 '')
     = Inr \<lparr>key = ''k'', defaultValue = [], layout = ''RFC850''\<rparr>"
proof -
  have sp: "spaces '' ''" "spaces []" "spaces [CHR 0x09]" "spaces [CHR 0xC2, CHR 0xA0]"
    "spaces ('' '' @ [CHR 0x09])"
    unfolding spaces_def
    by (rule exI [of _ "['' '']"], simp add: spaceRunes_def,
        rule exI [of _ "[]"], simp,
        rule exI [of _ "[[CHR 0x09]]"], simp add: spaceRunes_def,
        rule exI [of _ "[[CHR 0xC2, CHR 0xA0]]"], simp add: spaceRunes_def,
        rule exI [of _ "['' '', [CHR 0x09]]"], simp add: spaceRunes_def)
  have co: "coreStr ''myKey''" "coreStr ''default''" "coreStr ''42''" "coreStr ''k''"
    "coreStr ''layout''" "coreStr ''RFC850''"
    unfolding coreStr_def by code_simp+
  let ?a = "[KeySeg '' '' ''myKey'' '' '', OptSeg '' '' ''default'' [] '' '' ''42'' []]"
  let ?b = "[KeySeg [] ''k'' [], OptSeg [CHR 0xC2, CHR 0xA0] ''layout'' ('' '' @ [CHR 0x09])
               '' '' ''RFC850'' '' '']"
  have oka: "\<forall>sg \<in> set ?a. segOK sg" using sp co by simp
  have okb: "\<forall>sg \<in> set ?b. segOK sg" using sp co by simp
  from parseTag_trims [OF _ oka] parseTag_trims [OF _ okb]
  show ?thesis by (simp add: noOptions_def)
qed

lemma decimal_foldl_nonneg:
  "list_all isDigit ds \<Longrightarrow> 0 \<le> n \<Longrightarrow> 0 \<le> foldl (\<lambda>n c. n * 10 + (of_char c - 48)) (n::int) ds"
proof (induction ds arbitrary: n)
  case Nil
  then show ?case by simp
next
  case (Cons c ds)
  from Cons.prems have "isDigit c" by simp
  then have "(0::int) \<le> of_char c - 48"
    unfolding isDigit_def by (elim disjE | simp)+
  with Cons.prems have "0 \<le> n * 10 + (of_char c - 48)" by simp
  with Cons show ?case by simp
qed

lemma decimal_nonneg: "list_all isDigit ds \<Longrightarrow> 0 \<le> decimal ds"
  unfolding decimal_def by (rule decimal_foldl_nonneg) simp_all

lemma digit_no_sign: "isDigit c \<Longrightarrow> c \<noteq> CHR ''+'' \<and> c \<noteq> CHR ''-'' \<and> c \<noteq> CHR '' ''"
  by (auto simp: isDigit_def)

lemma Atoi_digits:
  assumes "ds \<noteq> []" and "list_all isDigit ds" and "decimal ds < 2 ^ 63"
  shows "Atoi ds = Inr (decimal ds)"
proof -
  from assms(1,2) have "isDigit (hd ds)" by (cases ds) auto
  then have "hd ds \<noteq> CHR ''+''" "hd ds \<noteq> CHR ''-''" using digit_no_sign by auto
  with assms show ?thesis by (simp add: Atoi_def)
qed

lemma wrap64_id: "- (2 ^ 63) \<le> x \<Longrightarrow> x < 2 ^ 63 \<Longrightarrow> wrap64 x = x"
  by (simp add: wrap64_def)

lemma nowReplacer_append: "nowReplacer (a @ b) = nowReplacer a @ nowReplacer b"
  by (simp add: nowReplacer_def)

lemma nowReplacer_digits: "list_all isDigit ds \<Longrightarrow> nowReplacer ds = ds"
proof (induction ds)
  case Nil
  show ?case by (simp add: nowReplacer_def)
next
  case (Cons c ds)
  then have "c \<noteq> CHR ''+'' \<and> c \<noteq> CHR ''-''" using digit_no_sign by simp
  moreover have "nowReplacer ds = ds" using Cons by simp
  ultimately show ?case by (simp add: nowReplacer_def)
qed

lemma nowReplacer_token:
  assumes "validToken t"
  shows "nowReplacer (tokenText t) = CHR '' '' # tokenText t"
proof -
  obtain sg ds idc where t: "t = (sg, ds, idc)" by (cases t)
  from assms t have v: "sg = CHR ''+'' \<or> sg = CHR ''-''" "list_all isDigit ds"
    "idc = CHR ''y'' \<or> idc = CHR ''m'' \<or> idc = CHR ''d''"
    by (auto simp: validToken_def)
  have "nowReplacer [sg] = [CHR '' '', sg]" using v(1) by (auto simp: nowReplacer_def)
  moreover have "nowReplacer [idc] = [idc]" using v(3) by (auto simp: nowReplacer_def)
  moreover have tx: "tokenText t = [sg] @ ds @ [idc]" by (simp add: t tokenText_def)
  ultimately have "nowReplacer ([sg] @ ds @ [idc]) = [CHR '' '', sg] @ ds @ [idc]"
    by (simp only: nowReplacer_append nowReplacer_digits [OF v(2)])
  then show ?thesis unfolding tx by simp
qed

lemma nowReplacer_tokens:
  "\<forall>t \<in> set toks. validToken t \<Longrightarrow>
     nowReplacer (concat (map tokenText toks)) = concat (map (\<lambda>t. '' '' @ tokenText t) toks)"
  by (induction toks) (simp_all add: nowReplacer_append nowReplacer_token, simp add: nowReplacer_def)

lemma token_no_space:
  assumes "validToken t"
  shows "CHR '' '' \<notin> set (tokenText t)"
proof -
  obtain sg ds idc where t: "t = (sg, ds, idc)" by (cases t)
  from assms t have v: "sg = CHR ''+'' \<or> sg = CHR ''-''" "list_all isDigit ds"
    "idc = CHR ''y'' \<or> idc = CHR ''m'' \<or> idc = CHR ''d''"
    by (auto simp: validToken_def)
  have "CHR '' '' \<notin> set ds" using v(2) digit_no_sign by (auto simp: list_all_iff)
  with v show ?thesis by (auto simp: t tokenText_def)
qed

lemma token_ends:
  assumes "validToken t"
  shows "tokenText t \<noteq> [] \<and> signChar (hd (tokenText t)) \<and> identChar (last (tokenText t))"
  using assms by (cases t) (auto simp: validToken_def tokenText_def signChar_def identChar_def)

lemma ends_trimmed:
  assumes "s \<noteq> []" and "signChar (hd s)" and "identChar (last s)"
  shows "trimmed s"
proof -
  have "hd s \<notin> hd ` set spaceRunes"
    using assms(2) unfolding signChar_def spaceRunes_def by (elim disjE) simp_all
  moreover have "last s \<notin> last ` set spaceRunes"
    using assms(3) unfolding identChar_def spaceRunes_def by (elim disjE) simp_all
  ultimately show ?thesis using assms(1) by (simp add: trimmed_def)
qed

lemma concat_ends:
  assumes "xs \<noteq> []" and "\<forall>x \<in> set xs. x \<noteq> [] \<and> signChar (hd x) \<and> identChar (last x)"
  shows "concat (map (\<lambda>x. w @ x) xs) \<noteq> [] \<and> identChar (last (concat (map (\<lambda>x. w @ x) xs)))"
  using assms
proof (induction xs rule: rev_induct)
  case Nil
  then show ?case by simp
next
  case (snoc x xs)
  then show ?case by simp
qed

lemma body_trimmed:
  assumes "toks \<noteq> []" and "\<forall>t \<in> set toks. validToken t"
  shows "trimmed (concat (map tokenText toks))"
proof -
  let ?xs = "map tokenText toks"
  have e: "\<forall>x \<in> set ?xs. x \<noteq> [] \<and> signChar (hd x) \<and> identChar (last x)"
    using assms(2) token_ends by auto
  from assms(1) have ne: "?xs \<noteq> []" by simp
  from concat_ends [OF ne e, of "[]"] have l: "concat ?xs \<noteq> []" "identChar (last (concat ?xs))"
    by simp_all
  obtain t ts where "toks = t # ts" using assms(1) by (cases toks) auto
  then have "hd (concat ?xs) = hd (tokenText t)"
    using e by simp
  moreover have "signChar (hd (tokenText t))" using e \<open>toks = t # ts\<close> by simp
  ultimately show ?thesis using l by (intro ends_trimmed) simp_all
qed

lemma joined_trimmed:
  assumes "toks \<noteq> []" and "\<forall>t \<in> set toks. validToken t"
  shows "trimmed (Join (map tokenText toks) '' '')"
proof -
  obtain t ts where tt: "toks = t # ts" using assms(1) by (cases toks) auto
  define x where "x = tokenText t"
  define rest where "rest = concat (map (\<lambda>y. '' '' @ y) (map tokenText ts))"
  have e: "\<forall>x \<in> set (map tokenText ts). x \<noteq> [] \<and> signChar (hd x) \<and> identChar (last x)"
    using assms(2) token_ends tt by auto
  have ex: "x \<noteq> []" "signChar (hd x)" "identChar (last x)"
    using assms(2) token_ends tt by (auto simp: x_def)
  have j: "Join (map tokenText toks) '' '' = x @ rest"
    by (simp add: tt Join_Cons x_def rest_def)
  have h: "hd (x @ rest) = hd x" using ex(1) by simp
  have "identChar (last (x @ rest))"
  proof (cases ts)
    case Nil
    then show ?thesis using ex by (simp add: rest_def)
  next
    case (Cons u us)
    then have "map tokenText ts \<noteq> []" by simp
    from concat_ends [OF this e, of "'' ''"]
    have "rest \<noteq> []" "identChar (last rest)"
      by (simp_all add: rest_def)
    then show ?thesis by simp
  qed
  moreover have "x @ rest \<noteq> []" using ex(1) by simp
  ultimately show ?thesis unfolding j using h ex(2) by (intro ends_trimmed) simp_all
qed

lemma assigned_Cons:
  "assigned c (t # toks) a = assigned c toks (if snd (snd t) = c then tokenDelta t else a)"
  by (auto simp: assigned_def split: list.splits)

lemma parseNowParts_tokens:
  assumes "\<forall>t \<in> set toks. validToken t \<and> fitsInt t"
  shows "parseNowParts (map tokenText toks) (y, m, d) =
           Inr (assigned CHR ''y'' toks y, assigned CHR ''m'' toks m, assigned CHR ''d'' toks d)"
  using assms
proof (induction toks arbitrary: y m d)
  case Nil
  show ?case by (simp add: assigned_def)
next
  case (Cons t toks)
  obtain sg ds idc where t: "t = (sg, ds, idc)" by (cases t)
  from Cons.prems t have v: "sg = CHR ''+'' \<or> sg = CHR ''-''" "ds \<noteq> []" "list_all isDigit ds"
    "idc = CHR ''y'' \<or> idc = CHR ''m'' \<or> idc = CHR ''d''" "decimal ds < 2 ^ 63"
    by (auto simp: validToken_def fitsInt_def)
  have len: "\<not> length (tokenText t) < 3" using v(2) by (cases ds) (auto simp: t tokenText_def)
  have hd: "hd (tokenText t) = sg" and mid: "butlast (tl (tokenText t)) = ds"
    and lst: "last (tokenText t) = idc"
    by (simp_all add: t tokenText_def)
  have at: "Atoi ds = Inr (decimal ds)" using v by (intro Atoi_digits)
  have nn: "0 \<le> decimal ds" using v(3) by (rule decimal_nonneg)
  have w: "wrap64 (decimal ds) = decimal ds" "wrap64 (- decimal ds) = - decimal ds"
    using nn v(5) by (simp_all add: wrap64_id)
  have ih: "\<And>y m d. parseNowParts (map tokenText toks) (y, m, d) =
           Inr (assigned CHR ''y'' toks y, assigned CHR ''m'' toks m, assigned CHR ''d'' toks d)"
    using Cons by simp
  have td: "tokenDelta t = (if sg = CHR ''+'' then decimal ds else - decimal ds)"
    by (simp add: t tokenDelta_def)
  have sel: "snd (snd t) = idc" by (simp add: t)
  show ?case
    using v(1) v(4)
    by (elim disjE) (simp_all add: len hd mid lst at w ih assigned_Cons td sel Let_def)
qed

lemma assigned_lastDelta: "assigned c toks 0 = lastDelta c toks"
  by (simp add: assigned_def lastDelta_def)

text \<open>
  Claim C3, as amended. For every expression \<open>now\<close> followed by tokens
  \<open>[+-] digits [ymd]\<close> whose numbers fit Go's 64-bit \<open>int\<close>, \<open>parseTime\<close> returns the clock
  reading when there is no token, and otherwise \<open>AddDate\<close> of the reading with, for each of
  \<open>y\<close>, \<open>m\<close>, \<open>d\<close>, the signed number of the last token with that identifier (0 when there
  is none): the numbers are assigned, not added up.
\<close>

theorem parseTime_now_relative:
  assumes "\<forall>t \<in> set toks. validToken t \<and> fitsInt t"
  shows "parseTime e layoutName (nowExpr toks) =
           Inr (if toks = [] then timeNow e
                else timeAddDate e (timeNow e)
                       (lastDelta CHR ''y'' toks) (lastDelta CHR ''m'' toks) (lastDelta CHR ''d'' toks))"
proof (cases "toks = []")
  case True
  then show ?thesis by (simp add: parseTime_def nowExpr_def)
next
  case False
  define body where "body = concat (map tokenText toks)"
  have valid: "\<forall>t \<in> set toks. validToken t" using assms by simp
  have tb: "trimmed body" unfolding body_def using False valid by (rule body_trimmed)
  then have bne: "body \<noteq> []" by (simp add: trimmed_def)
  have e1: "nowExpr toks = ''now'' @ body" by (simp add: nowExpr_def body_def)
  have notnow: "''now'' @ body \<noteq> ''now''" using bne by simp
  have pre: "prefix ''now'' (''now'' @ body)" by simp
  have dr: "drop 3 (''now'' @ body) = body" by simp
  have t1: "TrimSpace body = body"
    using TrimSpace_padded [OF tb, of "[]" "[]"] by simp
  obtain t ts where tt: "toks = t # ts" using False by (cases toks) auto
  have rp: "nowReplacer body = '' '' @ Join (map tokenText toks) '' ''"
    unfolding body_def nowReplacer_tokens [OF valid] by (simp add: tt Join_Cons comp_def)
  have tj: "trimmed (Join (map tokenText toks) '' '')" using False valid by (rule joined_trimmed)
  have t2: "TrimSpace (nowReplacer body) = Join (map tokenText toks) '' ''"
    unfolding rp using TrimSpace_padded [OF tj, of "'' ''" "[]"] by (simp add: asciiSpaces_def)
  have sp: "Split (Join (map tokenText toks) '' '') '' '' = map tokenText toks"
    using False valid token_no_space by (intro Split_Join) auto
  have lp: "parseNowParts (map tokenText toks) (0, 0, 0) =
      Inr (lastDelta CHR ''y'' toks, lastDelta CHR ''m'' toks, lastDelta CHR ''d'' toks)"
    using parseNowParts_tokens [OF assms, of 0 0 0] by (simp add: assigned_lastDelta)
  show ?thesis
    unfolding e1 parseTime_def Let_def
    using False notnow pre by (simp only: dr t1 t2 sp lp if_False if_True sum.case prod.case)
qed

theorem parseTime_now_relative_witness:
  "parseTime exampleEnv [] ''now+1y+2y'' =
     Inr (timeAddDate exampleEnv (timeNow exampleEnv) 2 0 0)"
proof -
  let ?toks = "[(CHR ''+'', ''1'', CHR ''y''), (CHR ''+'', ''2'', CHR ''y'')]"
  have "\<forall>t \<in> set ?toks. validToken t \<and> fitsInt t"
    by (simp add: validToken_def fitsInt_def isDigit_def decimal_def)
  from parseTime_now_relative [OF this, of exampleEnv "[]"]
  show ?thesis
    by (simp add: nowExpr_def tokenText_def lastDelta_def tokenDelta_def decimal_def)
qed

text \<open>
  Claim C3 as stated fails on a token that the grammar accepts and whose number does not
  fit \<open>int\<close>: \<open>strconv.Atoi\<close> rejects it and \<open>parseTime\<close> returns an error.
\<close>

theorem parseTime_now_overflow:
  "validToken (CHR ''+'', ''9223372036854775808'', CHR ''y'') \<and>
   parseTime exampleEnv [] (nowExpr [(CHR ''+'', ''9223372036854775808'', CHR ''y'')])
     = Inl (ErrNotInteger ''9223372036854775808'')"
proof
  show "validToken (CHR ''+'', ''9223372036854775808'', CHR ''y'')"
    by (simp add: validToken_def isDigit_def)
  show "parseTime exampleEnv [] (nowExpr [(CHR ''+'', ''9223372036854775808'', CHR ''y'')])
     = Inl (ErrNotInteger ''9223372036854775808'')"
    by code_simp
qed


lemma processField_plain:
  assumes "plainType e t"
  shows "processField e sd val t fld fOpts pOpts =
     (let isPtr = (Kind t = KPtr);
          typ1 = (if isPtr then Elem t else t);
          fld1 = derefTarget t fld;
          wrap = (if isPtr then (\<lambda>x. VPtr (Some x)) else (\<lambda>x. x))
      in if sd \<and> \<not> IsZero fld1 then (None, wrap fld1)
         else
           (case
              (case under typ1 of
                 Basic k \<Rightarrow> setBasic e val typ1 fld1
               | SliceOf et \<Rightarrow>
                   (case sliceLoop (\<lambda>v. processField e False v et (zero et) fOpts pOpts)
                           (Split val (Delim pOpts)) of
                      Inl err \<Rightarrow> (Some err, fld1)
                    | Inr sl \<Rightarrow> (None, VSlice (Some sl)))
               | MapOf kt vt \<Rightarrow>
                   (if TrimSpace val \<noteq> [] then
                      (case mapLoop (\<lambda>v. processField e False v kt (zero kt) fOpts pOpts)
                              (\<lambda>v. processField e False v vt (zero vt) fOpts pOpts)
                              (Split val (Delim pOpts)) [] of
                         Inl err \<Rightarrow> (Some err, fld1)
                       | Inr mp \<Rightarrow> (None, VMap (Some mp)))
                    else (None, VMap (Some [])))
               | _ \<Rightarrow> (None, fld1))
            of (err, v) \<Rightarrow> (err, wrap v)))"
proof -
  from assms have a: "isTime t = False" "unmarshalText e t = None" "unmarshalBinary e t = None"
    by (simp_all add: plainType_def)
  show ?thesis
  proof (cases "Kind t = KPtr")
    case True
    then have k: "(Kind t = KPtr) = True" by simp
    show ?thesis
      by (subst processField.simps)
        (simp only: a k if_False if_True option.case Let_def derefTarget_def)
  next
    case False
    then have k: "(Kind t = KPtr) = False" by simp
    show ?thesis
      by (subst processField.simps)
        (simp only: a k if_False if_True option.case Let_def derefTarget_def)
  qed
qed





lemma sliceLoop_Inr_iff:
  "sliceLoop f vs = Inr xs \<longleftrightarrow> (\<forall>v \<in> set vs. fst (f v) = None) \<and> xs = map (\<lambda>v. snd (f v)) vs"
proof (induction vs arbitrary: xs)
  case Nil
  show ?case by auto
next
  case (Cons v vs)
  obtain err x where fv: "f v = (err, x)" by (cases "f v")
  show ?case
  proof (cases err)
    case (Some a)
    with fv show ?thesis by simp
  next
    case None
    show ?thesis
    proof (cases "sliceLoop f vs")
      case (Inl b)
      with Cons [of "map (\<lambda>v. snd (f v)) vs"] fv None show ?thesis by auto
    next
      case (Inr ys)
      with Cons [of ys] fv None show ?thesis by auto
    qed
  qed
qed

lemma Delim_nonempty: "Delim pOpts \<noteq> []"
  by (simp add: Delim_def split: option.splits)

lemma Split_empty: "sep \<noteq> [] \<Longrightarrow> Split [] sep = [[]]"
  by (simp add: Split_def)

lemma Kind_slice: "under t = SliceOf et \<Longrightarrow> Kind t = KSlice"
  by (simp add: Kind_def)

lemma Kind_map: "under t = MapOf kt vt \<Longrightarrow> Kind t = KMap"
  by (simp add: Kind_def)

lemma processField_slice:
  assumes "plainType e t" and "under t = SliceOf et" and "\<not> sd \<or> IsZero fld"
  shows "processField e sd val t fld fOpts pOpts =
     (case sliceLoop (\<lambda>v. processField e False v et (zero et) fOpts pOpts)
             (Split val (Delim pOpts)) of
        Inl err \<Rightarrow> (Some err, fld)
      | Inr sl \<Rightarrow> (None, VSlice (Some sl)))"
proof -
  have k: "Kind t \<noteq> KPtr" using Kind_slice [OF assms(2)] by simp
  then have tg: "derefTarget t fld = fld" by (simp add: derefTarget_def)
  show ?thesis
    unfolding processField_plain [OF assms(1)] Let_def tg
    using k assms(2,3) by (auto split: sum.splits)
qed

lemma processField_string:
  assumes "plainType e stringType"
  shows "processField e False v stringType fld fOpts pOpts = (None, VString v)"
proof -
  have k: "Kind stringType = KString" by (simp add: stringType_def Kind_def)
  then have tg: "derefTarget stringType fld = fld" by (simp add: derefTarget_def)
  show ?thesis
    unfolding processField_plain [OF assms] Let_def tg
    using k by (simp add: stringType_def setBasic_def)
qed

lemma processField_map:
  assumes "plainType e t" and "under t = MapOf kt vt" and "\<not> sd \<or> IsZero fld"
  shows "processField e sd val t fld fOpts pOpts =
     (if TrimSpace val \<noteq> [] then
        (case mapLoop (\<lambda>v. processField e False v kt (zero kt) fOpts pOpts)
                (\<lambda>v. processField e False v vt (zero vt) fOpts pOpts)
                (Split val (Delim pOpts)) [] of
           Inl err \<Rightarrow> (Some err, fld)
         | Inr mp \<Rightarrow> (None, VMap (Some mp)))
      else (None, VMap (Some [])))"
proof -
  have k: "Kind t \<noteq> KPtr" using Kind_map [OF assms(2)] by simp
  then have tg: "derefTarget t fld = fld" by (simp add: derefTarget_def)
  show ?thesis
    unfolding processField_plain [OF assms(1)] Let_def tg
    using k assms(2,3) by (auto split: sum.splits)
qed

lemma sliceLoop_error:
  "\<forall>v \<in> set good. fst (f v) = None \<Longrightarrow> fst (f p) = Some err \<Longrightarrow>
     sliceLoop f (good @ p # rest) = Inl err"
proof (induction good)
  case Nil
  then show ?case by (cases "f p") auto
next
  case (Cons v good)
  then have "fst (f v) = None" and "sliceLoop f (good @ p # rest) = Inl err" by simp_all
  then show ?case by (cases "f v") auto
qed

text \<open>
  Claim C5, as amended. Take a field of a slice type that has no decoding of its own (the
  type is not \<open>time.Time\<close> and implements neither \<open>encoding.TextUnmarshaler\<close> nor
  \<open>encoding.BinaryUnmarshaler\<close>) and a coercion that is not a default over a non-nil slice.
  The string is split at the configured delimiter and every piece is coerced, in order, into
  a zero element. When every piece coerces, the field becomes the slice of the coerced
  pieces, one element for each piece (so that its length is the split count); the first
  piece that does not coerce gives its error and leaves the field as it was. The empty
  string is one piece: it gives the slice of the one element that the empty string coerces
  to (for string elements, the one-element slice of the empty string), or the error of
  that coercion. A map field of the same sort gets the empty map from an empty or
  white-space string.
\<close>

theorem slice_coercion:
  assumes "under t = SliceOf et" and "plainType e t" and "\<not> sd \<or> IsZero fld"
  shows "let f = (\<lambda>v. processField e False v et (zero et) fOpts pOpts);
             pieces = Split val (Delim pOpts);
             result = processField e sd val t fld fOpts pOpts
         in ((\<forall>v \<in> set pieces. fst (f v) = None) \<longrightarrow>
               result = (None, VSlice (Some (map (\<lambda>v. snd (f v)) pieces)))) \<and>
            (\<forall>good p rest err.
               pieces = good @ p # rest \<and> (\<forall>v \<in> set good. fst (f v) = None) \<and>
               fst (f p) = Some err \<longrightarrow>
               result = (Some err, fld)) \<and>
            (\<forall>r. result = (None, r) \<longrightarrow>
               (\<exists>xs. r = VSlice (Some xs) \<and> length xs = length pieces \<and>
                  (\<forall>i < length xs. f (pieces ! i) = (None, xs ! i)))) \<and>
            processField e sd [] t fld fOpts pOpts =
               (case f [] of
                  (Some err, x) \<Rightarrow> (Some err, fld)
                | (None, x) \<Rightarrow> (None, VSlice (Some [x]))) \<and>
            (plainType e stringType \<and> et = stringType \<longrightarrow>
               processField e sd [] t fld fOpts pOpts = (None, VSlice (Some [VString []]))) \<and>
            (\<forall>mt kt vt mfld.
               plainType e mt \<and> under mt = MapOf kt vt \<and> (\<not> sd \<or> IsZero mfld) \<and>
               TrimSpace val = [] \<longrightarrow>
               processField e sd val mt mfld fOpts pOpts = (None, VMap (Some [])))"
proof -
  let ?f = "\<lambda>v. processField e False v et (zero et) fOpts pOpts"
  let ?vals = "Split val (Delim pOpts)"
  let ?result = "processField e sd val t fld fOpts pOpts"
  note res = processField_slice [OF assms(2,1,3)]
  have A: "?result = (None, VSlice (Some (map (\<lambda>v. snd (?f v)) ?vals)))"
    if h: "\<forall>v \<in> set ?vals. fst (?f v) = None"
  proof -
    from h have "sliceLoop ?f ?vals = Inr (map (\<lambda>v. snd (?f v)) ?vals)"
      by (simp add: sliceLoop_Inr_iff)
    then show ?thesis unfolding res by simp
  qed
  have B: "?result = (Some err, fld)"
    if h1: "?vals = good @ p # rest" and h2: "\<forall>v \<in> set good. fst (?f v) = None"
      and h3: "fst (?f p) = Some err" for good p rest err
  proof -
    have "sliceLoop ?f (good @ p # rest) = Inl err" using h2 h3 by (rule sliceLoop_error)
    then show ?thesis unfolding res h1 by simp
  qed
  have C: "\<exists>xs. r = VSlice (Some xs) \<and> length xs = length ?vals \<and>
      (\<forall>i < length xs. ?f (?vals ! i) = (None, xs ! i))"
    if ok: "?result = (None, r)" for r
  proof -
    from ok obtain xs where l: "sliceLoop ?f ?vals = Inr xs" and r: "r = VSlice (Some xs)"
      unfolding res by (auto split: sum.splits)
    from l have all: "\<forall>v \<in> set ?vals. fst (?f v) = None"
      and xs: "xs = map (\<lambda>v. snd (?f v)) ?vals"
      by (simp_all add: sliceLoop_Inr_iff)
    have "\<forall>i < length xs. ?f (?vals ! i) = (None, xs ! i)"
    proof (intro allI impI)
      fix i assume "i < length xs"
      then have i: "i < length ?vals" using xs by simp
      then have "fst (?f (?vals ! i)) = None" using all by simp
      moreover have "xs ! i = snd (?f (?vals ! i))" using xs i by simp
      ultimately show "?f (?vals ! i) = (None, xs ! i)" by (simp add: prod_eq_iff)
    qed
    with r xs show ?thesis by auto
  qed
  have D: "processField e sd [] t fld fOpts pOpts =
      (case ?f [] of (Some err, x) \<Rightarrow> (Some err, fld) | (None, x) \<Rightarrow> (None, VSlice (Some [x])))"
    unfolding processField_slice [OF assms(2,1,3)] Split_empty [OF Delim_nonempty]
    by (cases "?f []") (auto split: option.splits)
  have E: "processField e sd [] t fld fOpts pOpts = (None, VSlice (Some [VString []]))"
    if h: "plainType e stringType \<and> et = stringType"
  proof -
    have "?f [] = (None, VString [])" using h processField_string by simp
    then show ?thesis unfolding D by simp
  qed
  have F: "processField e sd val mt mfld fOpts pOpts = (None, VMap (Some []))"
    if h: "plainType e mt \<and> under mt = MapOf kt vt \<and> (\<not> sd \<or> IsZero mfld) \<and> TrimSpace val = []"
    for mt kt vt mfld
    using h processField_map [of e mt kt vt sd mfld val fOpts pOpts] by simp
  show ?thesis
    unfolding Let_def
    apply (intro conjI allI impI)
    subgoal using A by blast
    subgoal for good p rest err using B [of good p rest err] by blast
    subgoal for r using C [of r] by blast
    subgoal using D by blast
    subgoal using E by blast
    subgoal for mt kt vt mfld using F [of mt kt vt mfld] by blast
    done
qed

theorem slice_coercion_witness:
  "processField exampleEnv False ''a;b;c'' (SliceOf stringType) (VSlice None) noOptions noParseOptions
     = (None, VSlice (Some [VString ''a'', VString ''b'', VString ''c''])) \<and>
   processField exampleEnv False ''1;x;2'' (SliceOf (Basic KInt)) (VSlice None) noOptions noParseOptions
     = (Some (ErrForeign ''strconv.ParseInt''), VSlice None) \<and>
   processField exampleEnv False [] (SliceOf stringType) (VSlice None) noOptions noParseOptions
     = (None, VSlice (Some [VString []])) \<and>
   processField exampleEnv False [] (MapOf stringType stringType) (VMap None) noOptions noParseOptions
     = (None, VMap (Some []))"
proof -
  have p: "plainType exampleEnv (SliceOf stringType)" "plainType exampleEnv stringType"
    "plainType exampleEnv (MapOf stringType stringType)" "plainType exampleEnv (SliceOf (Basic KInt))"
    by (simp_all add: plainType_def exampleEnv_def isTime_def PkgPath_def stringType_def)
  have z: "\<not> False \<or> IsZero (VSlice None)" by simp
  have d: "Split ''a;b;c'' (Delim noParseOptions) = [''a'', ''b'', ''c'']"
    and d2: "Split ''1;x;2'' (Delim noParseOptions) = [''1''] @ ''x'' # [''2'']"
    by (simp_all add: Delim_def noParseOptions_def Split_def)
  have s: "\<And>v z. processField exampleEnv False v stringType z noOptions noParseOptions
      = (None, VString v)"
    using p(2) by (rule processField_string)
  have i1: "processField exampleEnv False ''1'' (Basic KInt) (VInt 0) noOptions noParseOptions
      = (None, VInt 1)"
    and i2: "processField exampleEnv False ''x'' (Basic KInt) (VInt 0) noOptions noParseOptions
      = (Some (ErrForeign ''strconv.ParseInt''), VInt 0)"
    by code_simp+
  note S1 = slice_coercion [where sd = False and fOpts = noOptions and pOpts = noParseOptions
        and t = "SliceOf stringType" and et = stringType and e = exampleEnv
        and fld = "VSlice None" and val = "''a;b;c''", OF _ p(1) z, unfolded Let_def]
  note S2 = slice_coercion [where sd = False and fOpts = noOptions and pOpts = noParseOptions
        and t = "SliceOf (Basic KInt)" and et = "Basic KInt" and e = exampleEnv
        and fld = "VSlice None" and val = "''1;x;2''", OF _ p(4) z, unfolded Let_def]
  have a: "processField exampleEnv False ''a;b;c'' (SliceOf stringType) (VSlice None)
      noOptions noParseOptions = (None, VSlice (Some [VString ''a'', VString ''b'', VString ''c'']))"
    using S1 [THEN conjunct1] d s by simp
  have b: "processField exampleEnv False ''1;x;2'' (SliceOf (Basic KInt)) (VSlice None)
      noOptions noParseOptions = (Some (ErrForeign ''strconv.ParseInt''), VSlice None)"
    using S2 [THEN conjunct2, THEN conjunct1, rule_format, where good = "[''1'']" and p = "''x''"
        and rest = "[''2'']" and err = "ErrForeign ''strconv.ParseInt''"] d2 i1 i2
    by simp
  have c: "processField exampleEnv False [] (SliceOf stringType) (VSlice None) noOptions
      noParseOptions = (None, VSlice (Some [VString []]))"
    using S1 [THEN conjunct2, THEN conjunct2, THEN conjunct2, THEN conjunct2, THEN conjunct1] p(2)
    by simp
  have m: "processField exampleEnv False [] (MapOf stringType stringType) (VMap None) noOptions
      noParseOptions = (None, VMap (Some []))"
    using slice_coercion [where sd = False and fOpts = noOptions and pOpts = noParseOptions
        and t = "SliceOf stringType" and et = stringType and e = exampleEnv
        and fld = "VSlice None" and val = "[]", OF _ p(1) z, unfolded Let_def,
        THEN conjunct2, THEN conjunct2, THEN conjunct2, THEN conjunct2, THEN conjunct2,
        rule_format, where mt = "MapOf stringType stringType" and kt = stringType
        and vt = stringType and mfld = "VMap None"] p(3)
    by (simp add: TrimSpace_spaces)
  from a b c m show ?thesis by simp
qed

text \<open>
  Claim C5 as stated, for every field of a slice type, fails: \<open>TestBinaryUnmarshaler\<close> of
  the tests is a type of byte slices, and the one piece \<open>b\<close> gives it the six bytes of
  \<open>data_b\<close>; a default over a non-nil slice is not split at all; and the empty string into
  a slice of integers is the error of \<open>strconv.ParseInt\<close>, not a one-element slice.
\<close>

theorem slice_counterexample:
  "processField testEnv False ''b'' binaryType (VSlice None) noOptions noParseOptions
     = (None, bytes ''data_b'') \<and>
   Split ''b'' (Delim noParseOptions) = [''b''] \<and>
   processField exampleEnv True ''a;b;c'' (SliceOf stringType) (VSlice (Some [])) noOptions noParseOptions
     = (None, VSlice (Some [])) \<and>
   processField exampleEnv False [] (SliceOf (Basic KInt)) (VSlice None) noOptions noParseOptions
     = (Some (ErrForeign ''strconv.ParseInt''), VSlice None)"
  by code_simp


lemma length_splitOn: "length (splitOn [c] acc s) = Suc (count_list s c)"
  by (induction s arbitrary: acc) auto

lemma length_Split: "length (Split s [c]) = Suc (count_list s c)"
  by (simp add: Split_def length_splitOn)

lemma Split_one_colon:
  assumes "CHR '':'' \<notin> set k0" and "CHR '':'' \<notin> set v0"
  shows "Split (k0 @ CHR '':'' # v0) '':'' = [k0, v0]"
  using splitOn_first [OF assms(1), of "[]" v0] splitOn_none [OF assms(2), of "[]"]
  by (simp add: Split_def)

lemma count_list_zero: "count_list s c = 0 \<longleftrightarrow> c \<notin> set s"
  by (induction s) auto

lemma pair_parts:
  assumes "count_list q CHR '':'' = 1"
  shows "q = keyPart q @ CHR '':'' # valuePart q"
    and "CHR '':'' \<notin> set (keyPart q)" and "CHR '':'' \<notin> set (valuePart q)"
proof -
  show k: "CHR '':'' \<notin> set (keyPart q)"
    unfolding keyPart_def by (auto dest: set_takeWhileD)
  have "CHR '':'' \<in> set q" using assms count_list_zero [of q "CHR '':''"] by auto
  then have ne: "dropWhile (\<lambda>c. c \<noteq> CHR '':'') q \<noteq> []" by simp
  then have "hd (dropWhile (\<lambda>c. c \<noteq> CHR '':'') q) = CHR '':''"
    using hd_dropWhile [of "\<lambda>c. c \<noteq> CHR '':''" q] by auto
  with ne obtain rest where d: "dropWhile (\<lambda>c. c \<noteq> CHR '':'') q = CHR '':'' # rest"
    by (cases "dropWhile (\<lambda>c. c \<noteq> CHR '':'') q") auto
  have q: "q = keyPart q @ CHR '':'' # rest"
    using takeWhile_dropWhile_id [of "\<lambda>c. c \<noteq> CHR '':''" q] d by (simp add: keyPart_def)
  have "valuePart q = drop (Suc (length (keyPart q))) (keyPart q @ CHR '':'' # rest)"
    unfolding valuePart_def using q by simp
  then have v: "valuePart q = rest" by simp
  with q show "q = keyPart q @ CHR '':'' # valuePart q" by simp
  have "count_list q CHR '':'' = count_list (keyPart q @ CHR '':'' # rest) CHR '':''"
    using q by simp
  also have "\<dots> = Suc (count_list rest CHR '':'')"
    using k count_list_zero [of "keyPart q" "CHR '':''"] by simp
  finally have "count_list rest CHR '':'' = 0" using assms by simp
  then show "CHR '':'' \<notin> set (valuePart q)" using v count_list_zero by metis
qed

lemma Split_pair:
  assumes "count_list q CHR '':'' = 1"
  shows "Split q '':'' = [keyPart q, valuePart q]"
  using Split_one_colon [OF pair_parts(2,3) [OF assms]] pair_parts(1) [OF assms] by simp

lemma mapLoop_malformed:
  "count_list p CHR '':'' \<noteq> 1 \<Longrightarrow> mapLoop fk fv (p # rest) mp = Inl (ErrInvalidMapItem p)"
proof -
  assume "count_list p CHR '':'' \<noteq> 1"
  then have "length (Split p '':'') \<noteq> 2" by (simp add: length_Split)
  then show ?thesis by (auto split: list.splits)
qed

lemma mapLoop_pair:
  assumes "count_list p CHR '':'' = 1"
  shows "mapLoop fk fv (p # rest) mp =
     (case fk (keyPart p) of
        (Some err, _) \<Rightarrow> Inl err
      | (None, k) \<Rightarrow>
          (case fv (valuePart p) of
             (Some err, _) \<Rightarrow> Inl err
           | (None, v) \<Rightarrow> mapLoop fk fv rest (SetMapIndex mp k v)))"
  by (simp add: Split_pair [OF assms])

lemma mapLoop_good:
  "\<forall>q \<in> set good. pairOk fk fv q \<Longrightarrow>
     \<exists>mp'. mapLoop fk fv (good @ rest) mp = mapLoop fk fv rest mp'"
proof (induction good arbitrary: mp)
  case Nil
  show ?case by auto
next
  case (Cons q good)
  from Cons.prems have ok: "count_list q CHR '':'' = 1" "fst (fk (keyPart q)) = None"
    "fst (fv (valuePart q)) = None"
    by (simp_all add: pairOk_def)
  obtain k v where kv: "fk (keyPart q) = (None, k)" "fv (valuePart q) = (None, v)"
    using ok(2,3) by (cases "fk (keyPart q)"; cases "fv (valuePart q)") auto
  have "mapLoop fk fv ((q # good) @ rest) mp = mapLoop fk fv (good @ rest) (SetMapIndex mp k v)"
    using mapLoop_pair [OF ok(1), of fk fv "good @ rest" mp] kv by simp
  moreover obtain mp' where "mapLoop fk fv (good @ rest) (SetMapIndex mp k v) = mapLoop fk fv rest mp'"
    using Cons.IH [of "SetMapIndex mp k v"] Cons.prems by auto
  ultimately show ?case by auto
qed

lemma mapLoop_all_good:
  "\<forall>q \<in> set pairs. pairOk fk fv q \<Longrightarrow> \<exists>mp'. mapLoop fk fv pairs mp = Inr mp'"
  using mapLoop_good [of pairs fk fv "[]" mp] by simp

lemma mapLoop_strings:
  assumes "\<And>v. fk v = (None, VString v)" and "\<And>v. fv v = (None, VString v)"
    and "\<forall>q \<in> set pairs. count_list q CHR '':'' = 1"
  shows "mapLoop fk fv pairs mp =
     Inr (foldl (\<lambda>mp q. SetMapIndex mp (VString (keyPart q)) (VString (valuePart q))) mp pairs)"
  using assms(3)
proof (induction pairs arbitrary: mp)
  case Nil
  show ?case by simp
next
  case (Cons q pairs)
  then have c: "count_list q CHR '':'' = 1" by simp
  have "mapLoop fk fv (q # pairs) mp
      = mapLoop fk fv pairs (SetMapIndex mp (VString (keyPart q)) (VString (valuePart q)))"
    unfolding mapLoop_pair [OF c] by (simp add: assms(1,2))
  then show ?case using Cons.IH [of "SetMapIndex mp (VString (keyPart q)) (VString (valuePart q))"]
      Cons.prems
    by simp
qed

text \<open>
  Claim C4, as amended. Take a field of a map type that has no decoding of its own (the
  type is not \<open>time.Time\<close> and implements neither \<open>encoding.TextUnmarshaler\<close> nor
  \<open>encoding.BinaryUnmarshaler\<close>), a string that is not white space only, and a coercion
  that is not a default over a non-nil map. The string is split at the delimiter and each
  pair at every colon; the pairs are taken in order, and the first pair that is not accepted
  decides the error and leaves the field as it was. A pair with no colon, or with more than
  one, gives the malformed-pair error citing that pair. A pair with exactly one colon is
  never malformed, wherever it stands and whatever its sides: it gives the error of the
  coercion of its key or, when the key coerces, of its value. When every pair has one colon
  and both sides of it coerce, the coercion succeeds with a non-nil map. Empty sides are
  accepted: for a map from strings to strings, every list of pairs with one colon each
  gives the map \<open>stringPairs\<close> of the pairs.
\<close>

theorem map_pairs:
  assumes "under t = MapOf kt vt" and "plainType e t" and "\<not> sd \<or> IsZero fld"
    and "TrimSpace val \<noteq> []"
  shows "let fk = (\<lambda>v. processField e False v kt (zero kt) fOpts pOpts);
             fv = (\<lambda>v. processField e False v vt (zero vt) fOpts pOpts);
             pairs = Split val (Delim pOpts);
             result = processField e sd val t fld fOpts pOpts
         in (\<forall>good p rest.
               pairs = good @ p # rest \<and> (\<forall>q \<in> set good. pairOk fk fv q) \<and>
               count_list p CHR '':'' \<noteq> 1 \<longrightarrow>
               result = (Some (ErrInvalidMapItem p), fld)) \<and>
            (\<forall>good p rest err.
               pairs = good @ p # rest \<and> (\<forall>q \<in> set good. pairOk fk fv q) \<and>
               count_list p CHR '':'' = 1 \<and>
               (fst (fk (keyPart p)) = Some err \<or>
                fst (fk (keyPart p)) = None \<and> fst (fv (valuePart p)) = Some err) \<longrightarrow>
               result = (Some err, fld)) \<and>
            ((\<forall>q \<in> set pairs. pairOk fk fv q) \<longrightarrow>
               (\<exists>mp. result = (None, VMap (Some mp)))) \<and>
            (kt = stringType \<and> vt = stringType \<and> plainType e stringType \<and>
             (\<forall>q \<in> set pairs. count_list q CHR '':'' = 1) \<longrightarrow>
               result = (None, VMap (Some (stringPairs pairs))))"
proof -
  let ?fk = "\<lambda>v. processField e False v kt (zero kt) fOpts pOpts"
  let ?fv = "\<lambda>v. processField e False v vt (zero vt) fOpts pOpts"
  let ?pairs = "Split val (Delim pOpts)"
  let ?result = "processField e sd val t fld fOpts pOpts"
  have res: "?result =
     (case mapLoop ?fk ?fv ?pairs [] of
        Inl err \<Rightarrow> (Some err, fld)
      | Inr mp \<Rightarrow> (None, VMap (Some mp)))"
    unfolding processField_map [OF assms(2,1,3)] using assms(4) by simp
  have A: "?result = (Some (ErrInvalidMapItem p), fld)"
    if h1: "?pairs = good @ p # rest" and h2: "\<forall>q \<in> set good. pairOk ?fk ?fv q"
      and h3: "count_list p CHR '':'' \<noteq> 1" for good p rest
  proof -
    obtain mp' where "mapLoop ?fk ?fv (good @ p # rest) [] = mapLoop ?fk ?fv (p # rest) mp'"
      using mapLoop_good [OF h2, of "p # rest" "[]"] by auto
    then have "mapLoop ?fk ?fv ?pairs [] = Inl (ErrInvalidMapItem p)"
      using mapLoop_malformed [OF h3, of ?fk ?fv rest mp'] h1 by simp
    then show ?thesis unfolding res by simp
  qed
  have B: "?result = (Some err, fld)"
    if h1: "?pairs = good @ p # rest" and h2: "\<forall>q \<in> set good. pairOk ?fk ?fv q"
      and h3: "count_list p CHR '':'' = 1"
      and h4: "fst (?fk (keyPart p)) = Some err \<or>
       fst (?fk (keyPart p)) = None \<and> fst (?fv (valuePart p)) = Some err" for good p rest err
  proof -
    obtain mp' where "mapLoop ?fk ?fv (good @ p # rest) [] = mapLoop ?fk ?fv (p # rest) mp'"
      using mapLoop_good [OF h2, of "p # rest" "[]"] by auto
    moreover have "mapLoop ?fk ?fv (p # rest) mp' = Inl err"
      unfolding mapLoop_pair [OF h3] using h4
      by (cases "?fk (keyPart p)"; cases "?fv (valuePart p)") auto
    ultimately have "mapLoop ?fk ?fv ?pairs [] = Inl err" using h1 by simp
    then show ?thesis unfolding res by simp
  qed
  have C: "\<exists>mp. ?result = (None, VMap (Some mp))" if h1: "\<forall>q \<in> set ?pairs. pairOk ?fk ?fv q"
  proof -
    obtain mp where "mapLoop ?fk ?fv ?pairs [] = Inr mp"
      using mapLoop_all_good [OF h1, of "[]"] by auto
    then show ?thesis unfolding res by simp
  qed
  have D: "?result = (None, VMap (Some (stringPairs ?pairs)))"
    if h1: "kt = stringType" and h2: "vt = stringType" and h3: "plainType e stringType"
      and h4: "\<forall>q \<in> set ?pairs. count_list q CHR '':'' = 1"
  proof -
    have s: "\<And>v z. processField e False v stringType z fOpts pOpts = (None, VString v)"
      using h3 by (rule processField_string)
    have "mapLoop ?fk ?fv ?pairs [] = Inr (stringPairs ?pairs)"
      unfolding stringPairs_def
      by (rule mapLoop_strings) (simp_all add: h1 h2 h4 s)
    then show ?thesis unfolding res by simp
  qed
  show ?thesis
    unfolding Let_def
    apply (intro conjI allI impI)
    subgoal for good p rest using A [of good p rest] by blast
    subgoal for good p rest err using B [of good p rest err] by blast
    subgoal using C by blast
    subgoal using D by blast
    done
qed

theorem map_pairs_witness:
  "processField exampleEnv False ''k:v;ab;c:d'' (MapOf stringType stringType) (VMap None)
       noOptions noParseOptions
     = (Some (ErrInvalidMapItem ''ab''), VMap None) \<and>
   processField exampleEnv False ''k:1;a:'' (MapOf stringType (Basic KInt)) (VMap None)
       noOptions noParseOptions
     = (Some (ErrForeign ''strconv.ParseInt''), VMap None) \<and>
   processField exampleEnv False ''k:v;a:;:;k:w'' (MapOf stringType stringType) (VMap None)
       noOptions noParseOptions
     = (None, VMap (Some [(VString ''k'', VString ''w''), (VString ''a'', VString []),
          (VString [], VString [])]))"
proof -
  let ?t = "MapOf stringType stringType"
  let ?u = "MapOf stringType (Basic KInt)"
  have p: "plainType exampleEnv ?t" "plainType exampleEnv stringType" "plainType exampleEnv ?u"
    by (simp_all add: plainType_def exampleEnv_def isTime_def PkgPath_def stringType_def)
  have s: "\<And>v z. processField exampleEnv False v stringType z noOptions noParseOptions
      = (None, VString v)"
    using p(2) by (rule processField_string)
  have z: "\<not> False \<or> IsZero (VMap None)" by simp
  have t1: "TrimSpace ''k:v;ab;c:d'' \<noteq> []" and t2: "TrimSpace ''k:1;a:'' \<noteq> []"
    and t3: "TrimSpace ''k:v;a:;:;k:w'' \<noteq> []"
    by code_simp+
  have d1: "Split ''k:v;ab;c:d'' (Delim noParseOptions) = [''k:v''] @ ''ab'' # [''c:d'']"
    and d2: "Split ''k:1;a:'' (Delim noParseOptions) = [''k:1''] @ ''a:'' # []"
    and d3: "Split ''k:v;a:;:;k:w'' (Delim noParseOptions) = [''k:v'', ''a:'', '':'', ''k:w'']"
    by (simp_all add: Delim_def noParseOptions_def Split_def)
  have ok1: "pairOk (\<lambda>v. processField exampleEnv False v stringType (zero stringType) noOptions noParseOptions)
      (\<lambda>v. processField exampleEnv False v stringType (zero stringType) noOptions noParseOptions) ''k:v''"
    by (simp add: pairOk_def keyPart_def valuePart_def s)
  have i1: "processField exampleEnv False ''1'' (Basic KInt) (zero (Basic KInt)) noOptions noParseOptions
      = (None, VInt 1)"
    and i2: "processField exampleEnv False [] (Basic KInt) (zero (Basic KInt)) noOptions noParseOptions
      = (Some (ErrForeign ''strconv.ParseInt''), VInt 0)"
    by code_simp+
  have ok2: "pairOk (\<lambda>v. processField exampleEnv False v stringType (zero stringType) noOptions noParseOptions)
      (\<lambda>v. processField exampleEnv False v (Basic KInt) (zero (Basic KInt)) noOptions noParseOptions) ''k:1''"
    using i1 by (simp add: pairOk_def keyPart_def valuePart_def s)
  note M1 = map_pairs [where sd = False and fOpts = noOptions and pOpts = noParseOptions
        and t = ?t and kt = stringType and vt = stringType and e = exampleEnv
        and fld = "VMap None" and val = "''k:v;ab;c:d''", OF _ p(1) z t1, unfolded Let_def]
  note M2 = map_pairs [where sd = False and fOpts = noOptions and pOpts = noParseOptions
        and t = ?u and kt = stringType and vt = "Basic KInt" and e = exampleEnv
        and fld = "VMap None" and val = "''k:1;a:''", OF _ p(3) z t2, unfolded Let_def]
  note M3 = map_pairs [where sd = False and fOpts = noOptions and pOpts = noParseOptions
        and t = ?t and kt = stringType and vt = stringType and e = exampleEnv
        and fld = "VMap None" and val = "''k:v;a:;:;k:w''", OF _ p(1) z t3, unfolded Let_def]
  have a: "processField exampleEnv False ''k:v;ab;c:d'' ?t (VMap None) noOptions noParseOptions
     = (Some (ErrInvalidMapItem ''ab''), VMap None)"
    using M1 [THEN conjunct1, rule_format, where good = "[''k:v'']" and p = "''ab''"
        and rest = "[''c:d'']"] d1 ok1
    by simp
  have b: "processField exampleEnv False ''k:1;a:'' ?u (VMap None) noOptions noParseOptions
     = (Some (ErrForeign ''strconv.ParseInt''), VMap None)"
    using M2 [THEN conjunct2, THEN conjunct1, rule_format, where good = "[''k:1'']"
        and p = "''a:''" and rest = "[]" and err = "ErrForeign ''strconv.ParseInt''"] d2 ok2 s i2
    by (simp add: keyPart_def valuePart_def)
  have c: "processField exampleEnv False ''k:v;a:;:;k:w'' ?t (VMap None) noOptions noParseOptions
     = (None, VMap (Some (stringPairs [''k:v'', ''a:'', '':'', ''k:w''])))"
    using M3 [THEN conjunct2, THEN conjunct2, THEN conjunct2] d3 p(2) by simp
  have "stringPairs [''k:v'', ''a:'', '':'', ''k:w'']
      = [(VString ''k'', VString ''w''), (VString ''a'', VString []), (VString [], VString [])]"
    by code_simp
  with a b c show ?thesis by simp
qed

text \<open>
  Claim C4 as stated fails: the pair \<open>a:b:c\<close> is malformed (a pair is not split at its
  first colon only); the pairs \<open>a:\<close> and \<open>:b\<close>, with an empty side, are accepted, alone or
  after another pair; and a default over a non-nil map is not split at all, so that the
  pair \<open>ab\<close> raises nothing there.
\<close>

theorem map_pair_counterexample:
  "processField exampleEnv False ''a:b:c'' (MapOf stringType stringType) (VMap None)
       noOptions noParseOptions
     = (Some (ErrInvalidMapItem ''a:b:c''), VMap None) \<and>
   processField exampleEnv False ''a:'' (MapOf stringType stringType) (VMap None)
       noOptions noParseOptions
     = (None, VMap (Some [(VString ''a'', VString [])])) \<and>
   processField exampleEnv False ''k:v;:b'' (MapOf stringType stringType) (VMap None)
       noOptions noParseOptions
     = (None, VMap (Some [(VString ''k'', VString ''v''), (VString [], VString ''b'')])) \<and>
   processField exampleEnv True ''ab'' (MapOf stringType stringType) (VMap (Some []))
       noOptions noParseOptions
     = (None, VMap (Some []))"
  by code_simp

lemma Kind_StructOf: "under t = StructOf sfs \<Longrightarrow> Kind t = KStruct"
  by (simp add: Kind_def)

lemma extractFields_invalid:
  assumes "target = None \<or> (\<exists>t v. target = Some (t, v) \<and>
             (Kind t \<noteq> KPtr \<or> v = VPtr None \<or> Kind (Elem t) \<noteq> KStruct))"
  shows "fst (extractFields e target) = Some ErrInvalidStruct"
proof (cases target)
  case None
  then show ?thesis by (simp add: extractFields_def)
next
  case (Some tv)
  obtain t v where tv: "tv = (t, v)" by (cases tv)
  with assms Some have c: "Kind t \<noteq> KPtr \<or> v = VPtr None \<or> Kind (Elem t) \<noteq> KStruct" by simp
  show ?thesis
  proof (cases "Kind t \<noteq> KPtr")
    case True
    then show ?thesis by (simp add: extractFields_def Some tv)
  next
    case False
    show ?thesis
    proof (cases "\<exists>strct. v = VPtr (Some strct)")
      case True
      then obtain strct where v: "v = VPtr (Some strct)" by blast
      with c False have "Kind (Elem t) \<noteq> KStruct" by simp
      then have "\<And>sfs. under (Elem t) \<noteq> StructOf sfs" using Kind_StructOf by blast
      then show ?thesis using False v
        by (simp add: extractFields_def Some tv split: gtype.splits)
    next
      case nv: False
      then show ?thesis using False
        by (simp add: extractFields_def Some tv split: gval.splits option.splits)
    qed
  qed
qed

text \<open>
  Claim C6. Whatever the input is, \<open>Unmarshal\<close> fails with \<open>ErrInvalidStruct\<close> when the
  target is the nil interface, is not a pointer, is a nil pointer, or points to something
  that is no struct; and it fails with the no-fields error, a different one, when the
  flattening of a struct pointer gives no field.
\<close>

theorem unmarshal_structural_errors:
  "((target = None \<or> (\<exists>t v. target = Some (t, v) \<and>
        (Kind t \<noteq> KPtr \<or> v = VPtr None \<or> Kind (Elem t) \<noteq> KStruct))) \<longrightarrow>
      fst (Unmarshal e data target setParseOpts) = Some ErrInvalidStruct) \<and>
   ((\<exists>v. extractFields e target = (None, [], v)) \<longrightarrow>
      fst (Unmarshal e data target setParseOpts) = Some ErrNoFields) \<and>
   ErrNoFields \<noteq> ErrInvalidStruct"
proof (intro conjI impI)
  assume "target = None \<or> (\<exists>t v. target = Some (t, v) \<and>
        (Kind t \<noteq> KPtr \<or> v = VPtr None \<or> Kind (Elem t) \<noteq> KStruct))"
  then have "fst (extractFields e target) = Some ErrInvalidStruct"
    by (rule extractFields_invalid)
  then obtain fs v where "extractFields e target = (Some ErrInvalidStruct, fs, v)"
    by (cases "extractFields e target") auto
  then show "fst (Unmarshal e data target setParseOpts) = Some ErrInvalidStruct"
    by (simp add: Unmarshal_def)
next
  assume "\<exists>v. extractFields e target = (None, [], v)"
  then show "fst (Unmarshal e data target setParseOpts) = Some ErrNoFields"
    by (auto simp: Unmarshal_def)
next
  show "ErrNoFields \<noteq> ErrInvalidStruct" by simp
qed

theorem unmarshal_structural_errors_witness:
  "fst (Unmarshal exampleEnv (valuesOf [(''k'', [''v''])]) (Some (Basic KString, VString [])) [])
     = Some ErrInvalidStruct \<and>
   fst (Unmarshal exampleEnv (valuesOf [(''k'', [''v''])])
          (Some (PtrTo (StructOf []), VPtr (Some (VStruct [])))) [])
     = Some ErrNoFields"
proof -
  have k: "Kind (Basic KString) \<noteq> KPtr" by (simp add: Kind_def)
  have x: "extractFields exampleEnv (Some (PtrTo (StructOf []), VPtr (Some (VStruct []))))
      = (None, [], VPtr (Some (VStruct [])))"
    by (simp add: extractFields_def Kind_def Elem_def extractLoop.simps)
  from unmarshal_structural_errors
    [of "Some (Basic KString, VString [])" exampleEnv "valuesOf [(''k'', [''v''])]" "[]"] k
  have a: "fst (Unmarshal exampleEnv (valuesOf [(''k'', [''v''])])
      (Some (Basic KString, VString [])) []) = Some ErrInvalidStruct"
    by simp
  from unmarshal_structural_errors
    [of "Some (PtrTo (StructOf []), VPtr (Some (VStruct [])))" exampleEnv
      "valuesOf [(''k'', [''v''])]" "[]"] x
  have b: "fst (Unmarshal exampleEnv (valuesOf [(''k'', [''v''])])
      (Some (PtrTo (StructOf []), VPtr (Some (VStruct [])))) []) = Some ErrNoFields"
    by simp
  from a b show ?thesis by simp
qed

lemma fieldsLoop_append:
  "fieldsLoop e data pOpts (pre @ rest) s =
     (case fieldsLoop e data pOpts pre s of
        (Some err, s1) \<Rightarrow> (Some err, s1)
      | (None, s1) \<Rightarrow> fieldsLoop e data pOpts rest s1)"
  by (induction pre arbitrary: s) (auto split: prod.splits option.splits)

lemma Unmarshal_flattened:
  assumes "extractFields e target = (None, fs, VPtr (Some s0))" and "fs \<noteq> []"
  shows "Unmarshal e data target setParseOpts =
     (case fieldsLoop e data (applyOptions setParseOpts) fs s0 of
        (err, s') \<Rightarrow> (err, VPtr (Some s')))"
  using assms by (simp add: Unmarshal_def)

lemma Unmarshal_at_field:
  assumes "extractFields e target = (None, pre @ f # post, VPtr (Some s0))"
    and "fieldsLoop e data (applyOptions setParseOpts) pre s0 = (None, s1)"
  shows "Unmarshal e data target setParseOpts =
     (case fieldStep e data (applyOptions setParseOpts) f s1 of
        (Some err, s2) \<Rightarrow> (Some err, VPtr (Some s2))
      | (None, s2) \<Rightarrow>
          (case fieldsLoop e data (applyOptions setParseOpts) post s2 of
             (err, s') \<Rightarrow> (err, VPtr (Some s'))))"
  unfolding Unmarshal_flattened [OF assms(1), simplified] fieldsLoop_append assms(2)
  by (simp split: prod.splits option.splits)

lemma fieldStep_error_shape:
  assumes "fieldStep e data pOpts f s = (Some err, s')"
  shows "(\<exists>cause. err = defaultFailure f cause) \<or>
         (\<exists>vals cause. data (lookupKey f) = Some vals \<and>
            err = inputFailure f (inputValue pOpts vals) cause)"
  using assms
  by (auto simp: fieldStep_def defaultStep_def inputStep_def defaultFailure_def inputFailure_def
      split: prod.splits option.splits if_splits)

lemma fieldsLoop_error_shape:
  assumes "fieldsLoop e data pOpts fs s = (Some err, s')"
  shows "\<exists>g \<in> set fs. (\<exists>cause. err = defaultFailure g cause) \<or>
         (\<exists>vals cause. data (lookupKey g) = Some vals \<and>
            err = inputFailure g (inputValue pOpts vals) cause)"
  using assms
proof (induction fs arbitrary: s)
  case Nil
  then show ?case by simp
next
  case (Cons f fs)
  obtain r s1 where st: "fieldStep e data pOpts f s = (r, s1)" by (cases "fieldStep e data pOpts f s")
  show ?case
  proof (cases r)
    case None
    with Cons.prems st have "fieldsLoop e data pOpts fs s1 = (Some err, s')" by simp
    from Cons.IH [OF this] show ?thesis by auto
  next
    case (Some a)
    with Cons.prems st have "fieldStep e data pOpts f s = (Some err, s')" by simp
    from fieldStep_error_shape [OF this] show ?thesis by auto
  qed
qed

text \<open>
  Claim C1. Let \<open>f\<close> be any flattened field and let the fields before it be processed
  without error. If the coercion of the default of \<open>f\<close> fails, \<open>Unmarshal\<close> returns the bare
  \<open>FieldError\<close> of that failure. If the default step passes and the coercion of the input
  value of \<open>f\<close> fails, \<open>Unmarshal\<close> returns a \<open>ParseError\<close> that carries the key read and
  wraps the \<open>FieldError\<close> of that failure. And every error of \<open>Unmarshal\<close> after a
  flattening with fields has one of these two shapes, the second only for a key that the
  input has.
\<close>

theorem unmarshal_error_tiers:
  assumes "extractFields e target = (None, pre @ f # post, VPtr (Some s0))"
    and "fieldsLoop e data (applyOptions setParseOpts) pre s0 = (None, s1)"
  shows "(\<forall>cause s2.
            defaultValue (options f) \<noteq> [] \<and>
            processAt e True (defaultValue (options f)) f (applyOptions setParseOpts) s1
              = (Some cause, s2) \<longrightarrow>
            Unmarshal e data target setParseOpts
              = (Some (FieldError (fname f) (ftype f) (defaultValue (options f)) cause),
                 VPtr (Some s2))) \<and>
         (\<forall>s2 vals cause s3.
            defaultStep e (applyOptions setParseOpts) f s1 = (None, s2) \<and>
            data (lookupKey f) = Some vals \<and> vals \<noteq> [] \<and>
            processAt e False (inputValue (applyOptions setParseOpts) vals) f
              (applyOptions setParseOpts) s2 = (Some cause, s3) \<longrightarrow>
            Unmarshal e data target setParseOpts
              = (Some (ParseError (fname f) (lookupKey f)
                         (FieldError (fname f) (ftype f)
                            (inputValue (applyOptions setParseOpts) vals) cause)),
                 VPtr (Some s3))) \<and>
         (\<forall>err t'.
            Unmarshal e data target setParseOpts = (Some err, t') \<longrightarrow>
            (\<exists>g \<in> set (pre @ f # post).
               (\<exists>cause. err = defaultFailure g cause) \<or>
               (\<exists>vals cause. data (lookupKey g) = Some vals \<and>
                  err = inputFailure g (inputValue (applyOptions setParseOpts) vals) cause)))"
proof (intro conjI allI impI)
  fix cause s2
  assume "defaultValue (options f) \<noteq> [] \<and>
            processAt e True (defaultValue (options f)) f (applyOptions setParseOpts) s1
              = (Some cause, s2)"
  then show "Unmarshal e data target setParseOpts
              = (Some (FieldError (fname f) (ftype f) (defaultValue (options f)) cause),
                 VPtr (Some s2))"
    unfolding Unmarshal_at_field [OF assms]
    by (simp add: fieldStep_def defaultStep_def)
next
  fix s2 vals cause s3
  assume "defaultStep e (applyOptions setParseOpts) f s1 = (None, s2) \<and>
            data (lookupKey f) = Some vals \<and> vals \<noteq> [] \<and>
            processAt e False (inputValue (applyOptions setParseOpts) vals) f
              (applyOptions setParseOpts) s2 = (Some cause, s3)"
  then show "Unmarshal e data target setParseOpts
              = (Some (ParseError (fname f) (lookupKey f)
                         (FieldError (fname f) (ftype f)
                            (inputValue (applyOptions setParseOpts) vals) cause)),
                 VPtr (Some s3))"
    unfolding Unmarshal_at_field [OF assms]
    by (simp add: fieldStep_def inputStep_def)
next
  fix err t'
  assume u: "Unmarshal e data target setParseOpts = (Some err, t')"
  have ne: "pre @ f # post \<noteq> []" by simp
  obtain r s' where l: "fieldsLoop e data (applyOptions setParseOpts) (pre @ f # post) s0 = (r, s')"
    by (cases "fieldsLoop e data (applyOptions setParseOpts) (pre @ f # post) s0")
  with u have "r = Some err"
    unfolding Unmarshal_flattened [OF assms(1) ne] by simp
  with l have "fieldsLoop e data (applyOptions setParseOpts) (pre @ f # post) s0 = (Some err, s')"
    by simp
  then show "\<exists>g \<in> set (pre @ f # post).
               (\<exists>cause. err = defaultFailure g cause) \<or>
               (\<exists>vals cause. data (lookupKey g) = Some vals \<and>
                  err = inputFailure g (inputValue (applyOptions setParseOpts) vals) cause)"
    by (rule fieldsLoop_error_shape)
qed


theorem unmarshal_error_tiers_witness:
  "Unmarshal exampleEnv (valuesOf []) defaultTarget []
     = (Some (FieldError ''Value'' (Basic KInt) ''notAnInt'' (ErrForeign ''strconv.ParseInt'')),
        VPtr (Some (VStruct [VInt 0]))) \<and>
   Unmarshal exampleEnv (valuesOf [(''Value'', [''notAnInt''])]) valueTarget []
     = (Some (ParseError ''Value'' ''Value''
          (FieldError ''Value'' (Basic KInt) ''notAnInt'' (ErrForeign ''strconv.ParseInt''))),
        VPtr (Some (VStruct [VInt 0])))"
proof -
  define f1 where "f1 = \<lparr>fname = ''Value'', fpath = [FieldStep 0], ftype = Basic KInt,
      options = \<lparr>key = [], defaultValue = ''notAnInt'', layout = []\<rparr>\<rparr>"
  define f2 where "f2 = \<lparr>fname = ''Value'', fpath = [FieldStep 0], ftype = Basic KInt,
      options = \<lparr>key = [], defaultValue = [], layout = []\<rparr>\<rparr>"
  have x1: "extractFields exampleEnv defaultTarget = (None, [] @ f1 # [], VPtr (Some (VStruct [VInt 0])))"
    unfolding f1_def by code_simp
  have x2: "extractFields exampleEnv valueTarget = (None, [] @ f2 # [], VPtr (Some (VStruct [VInt 0])))"
    unfolding f2_def by code_simp
  have l: "\<And>data. fieldsLoop exampleEnv data (applyOptions []) [] (VStruct [VInt 0])
      = (None, VStruct [VInt 0])"
    by simp
  have p1: "defaultValue (options f1) \<noteq> [] \<and>
      processAt exampleEnv True (defaultValue (options f1)) f1 (applyOptions []) (VStruct [VInt 0])
        = (Some (ErrForeign ''strconv.ParseInt''), VStruct [VInt 0])"
    unfolding f1_def by code_simp
  have p2: "defaultStep exampleEnv (applyOptions []) f2 (VStruct [VInt 0]) = (None, VStruct [VInt 0]) \<and>
      valuesOf [(''Value'', [''notAnInt''])] (lookupKey f2) = Some [''notAnInt''] \<and>
      [''notAnInt''] \<noteq> [] \<and>
      processAt exampleEnv False (inputValue (applyOptions []) [''notAnInt'']) f2 (applyOptions [])
          (VStruct [VInt 0])
        = (Some (ErrForeign ''strconv.ParseInt''), VStruct [VInt 0])"
    unfolding f2_def by code_simp
  note A = unmarshal_error_tiers [where data = "valuesOf []" and setParseOpts = "[]",
      OF x1 l, THEN conjunct1, rule_format, OF p1]
  note B = unmarshal_error_tiers [where data = "valuesOf [(''Value'', [''notAnInt''])]"
        and setParseOpts = "[]",
      OF x2 l, THEN conjunct2, THEN conjunct1, rule_format,
      where ?vals.0 = "[''notAnInt'']", OF p2]
  have "fname f1 = ''Value''" "ftype f1 = Basic KInt" "defaultValue (options f1) = ''notAnInt''"
    "fname f2 = ''Value''" "ftype f2 = Basic KInt" "lookupKey f2 = ''Value''"
    "inputValue (applyOptions []) [''notAnInt''] = ''notAnInt''"
    by (simp_all add: f1_def f2_def lookupKey_def inputValue_def)
  with A B show ?thesis by simp
qed

lemma Join_two: "Join (v # w # ws) sep = v @ sep @ Join (w # ws) sep"
  by simp

text \<open>
  Claim C7. For a flattened field \<open>f\<close> whose key has the values \<open>vals\<close> in the input (the
  fields before it and its default step passing), \<open>Unmarshal\<close> coerces the sole value when
  there is one and otherwise the values joined with \<open>Delim\<close>, and goes on with the fields
  after \<open>f\<close> or returns the \<open>ParseError\<close>. \<open>Join\<close> puts the separator between the values;
  \<open>Delim\<close> is \<open>;\<close> when the delimiter is unset or empty, and the delimiter otherwise; no
  option leaves it unset and \<open>WithDelimiter\<close> sets it.
\<close>

theorem unmarshal_joins_values:
  assumes "extractFields e target = (None, pre @ f # post, VPtr (Some s0))"
    and "fieldsLoop e data (applyOptions setParseOpts) pre s0 = (None, s1)"
    and "defaultStep e (applyOptions setParseOpts) f s1 = (None, s2)"
    and "data (lookupKey f) = Some vals" and "vals \<noteq> []"
  shows "Unmarshal e data target setParseOpts =
           (case processAt e False
                   (if length vals > 1 then Join vals (Delim (applyOptions setParseOpts)) else hd vals)
                   f (applyOptions setParseOpts) s2 of
              (Some cause, s3) \<Rightarrow>
                (Some (ParseError (fname f) (lookupKey f)
                         (FieldError (fname f) (ftype f)
                            (if length vals > 1 then Join vals (Delim (applyOptions setParseOpts))
                             else hd vals) cause)),
                 VPtr (Some s3))
            | (None, s3) \<Rightarrow>
                (case fieldsLoop e data (applyOptions setParseOpts) post s3 of
                   (err, s') \<Rightarrow> (err, VPtr (Some s')))) \<and>
         (\<forall>v w ws sep. Join [v] sep = v \<and> Join (v # w # ws) sep = v @ sep @ Join (w # ws) sep) \<and>
         (\<forall>pOpts. delim pOpts = None \<or> delim pOpts = Some [] \<longrightarrow> Delim pOpts = '';'') \<and>
         (\<forall>pOpts d. delim pOpts = Some d \<and> d \<noteq> [] \<longrightarrow> Delim pOpts = d) \<and>
         applyOptions [] = \<lparr>delim = None\<rparr> \<and>
         (\<forall>fs d. delim (applyOptions (fs @ [WithDelimiter d])) = Some d)"
proof (intro conjI allI impI)
  show "Unmarshal e data target setParseOpts =
           (case processAt e False
                   (if length vals > 1 then Join vals (Delim (applyOptions setParseOpts)) else hd vals)
                   f (applyOptions setParseOpts) s2 of
              (Some cause, s3) \<Rightarrow>
                (Some (ParseError (fname f) (lookupKey f)
                         (FieldError (fname f) (ftype f)
                            (if length vals > 1 then Join vals (Delim (applyOptions setParseOpts))
                             else hd vals) cause)),
                 VPtr (Some s3))
            | (None, s3) \<Rightarrow>
                (case fieldsLoop e data (applyOptions setParseOpts) post s3 of
                   (err, s') \<Rightarrow> (err, VPtr (Some s'))))"
    unfolding Unmarshal_at_field [OF assms(1,2)]
    using assms(3,4,5)
    by (simp add: fieldStep_def inputStep_def inputValue_def split: prod.splits option.splits)
next
  fix pOpts :: ParseOptions
  assume "delim pOpts = None \<or> delim pOpts = Some []"
  then show "Delim pOpts = '';''" by (auto simp: Delim_def)
next
  fix pOpts :: ParseOptions and d
  assume "delim pOpts = Some d \<and> d \<noteq> []"
  then show "Delim pOpts = d" by (simp add: Delim_def)
next
  show "applyOptions [] = \<lparr>delim = None\<rparr>" by (simp add: applyOptions_def)
next
  fix fs d
  show "delim (applyOptions (fs @ [WithDelimiter d])) = Some d"
    by (simp add: applyOptions_def WithDelimiter_def)
qed simp_all

theorem unmarshal_joins_values_witness:
  "Unmarshal exampleEnv (valuesOf [(''items'', [''item1'', ''item2''])]) itemsTarget []
     = (None, VPtr (Some (VStruct [VSlice (Some [VString ''item1'', VString ''item2''])]))) \<and>
   Unmarshal exampleEnv (valuesOf [(''items'', [''a;b''])]) itemsTarget [WithDelimiter '','']
     = (None, VPtr (Some (VStruct [VSlice (Some [VString ''a;b''])]))) \<and>
   Delim (applyOptions [WithDelimiter []]) = '';''"
proof -
  define f where "f = \<lparr>fname = ''Slice'', fpath = [FieldStep 0], ftype = SliceOf (Basic KString),
      options = \<lparr>key = ''items'', defaultValue = [], layout = []\<rparr>\<rparr>"
  define s0 where "s0 = VStruct [VSlice None]"
  have x: "extractFields exampleEnv itemsTarget = (None, [] @ f # [], VPtr (Some s0))"
    unfolding f_def s0_def by code_simp
  have l: "\<And>data sp. fieldsLoop exampleEnv data (applyOptions sp) [] s0 = (None, s0)"
    by simp
  have d: "\<And>sp. defaultStep exampleEnv (applyOptions sp) f s0 = (None, s0)"
    by (simp add: defaultStep_def f_def)
  have k1: "valuesOf [(''items'', [''item1'', ''item2''])] (lookupKey f) = Some [''item1'', ''item2'']"
    and k2: "valuesOf [(''items'', [''a;b''])] (lookupKey f) = Some [''a;b'']"
    by (simp_all add: valuesOf_def lookupKey_def f_def)
  note A = unmarshal_joins_values [where data = "valuesOf [(''items'', [''item1'', ''item2''])]"
        and setParseOpts = "[]" and vals = "[''item1'', ''item2'']",
      OF x l d k1, THEN conjunct1]
  note B = unmarshal_joins_values [where data = "valuesOf [(''items'', [''a;b''])]"
        and setParseOpts = "[WithDelimiter '','']" and vals = "[''a;b'']",
      OF x l d k2, THEN conjunct1]
  have pa: "processAt exampleEnv False
      (if length [''item1'', ''item2''] > 1 then Join [''item1'', ''item2''] (Delim (applyOptions []))
       else hd [''item1'', ''item2'']) f (applyOptions []) s0
      = (None, VStruct [VSlice (Some [VString ''item1'', VString ''item2''])])"
    unfolding f_def s0_def by code_simp
  have pb: "processAt exampleEnv False
      (if length [''a;b''] > 1 then Join [''a;b''] (Delim (applyOptions [WithDelimiter '','']))
       else hd [''a;b'']) f (applyOptions [WithDelimiter '','']) s0
      = (None, VStruct [VSlice (Some [VString ''a;b''])])"
    unfolding f_def s0_def by code_simp
  have "Unmarshal exampleEnv (valuesOf [(''items'', [''item1'', ''item2''])]) itemsTarget []
     = (None, VPtr (Some (VStruct [VSlice (Some [VString ''item1'', VString ''item2''])])))"
    using A unfolding pa by simp
  moreover have "Unmarshal exampleEnv (valuesOf [(''items'', [''a;b''])]) itemsTarget [WithDelimiter '','']
     = (None, VPtr (Some (VStruct [VSlice (Some [VString ''a;b''])])))"
    using B unfolding pb by simp
  moreover have "Delim (applyOptions [WithDelimiter []]) = '';''"
    by (simp add: applyOptions_def WithDelimiter_def Delim_def)
  ultimately show ?thesis by simp
qed

lemma hasType_zero: "hasType t (zero t)" and hasTypes_zeros: "hasTypes fs (zeros fs)"
proof (induction t and fs rule: zero_zeros.induct)
  case (1 k)
  show ?case by (cases k) simp_all
qed auto

lemma hasType_under: "hasType t v \<Longrightarrow> hasType (under t) v"
  by (induction t rule: under.induct) auto

lemma hasType_ptr:
  assumes "hasType t v" and "under t = PtrTo t1"
  shows "v = VPtr None \<or> (\<exists>x. v = VPtr (Some x) \<and> hasType t1 x)"
  using hasType_under [OF assms(1)] assms(2)
  by (auto split: gval.splits option.splits)

lemma hasType_struct:
  assumes "hasType t v" and "under t = StructOf sfs"
  shows "\<exists>vs. v = VStruct vs \<and> hasTypes sfs vs"
  using hasType_under [OF assms(1)] assms(2)
  by (auto split: gval.splits)

lemma Kind_PtrTo: "under t = PtrTo t1 \<Longrightarrow> Kind t = KPtr"
  by (simp add: Kind_def)

lemma drill_typed:
  assumes "hasType t v" and "drill t v = (p, lt, lv, v1)"
  shows "hasType lt lv \<and> getPath p v1 = Some lv \<and>
         (Kind lt = KPtr \<longrightarrow> lv = VPtr None \<and> Kind (Elem lt) \<noteq> KStruct)"
  using assms
proof (induction t v arbitrary: p lt lv v1 rule: drill.induct)
  case (1 t v)
  show ?case
  proof (cases "\<exists>t1. under t = PtrTo t1")
    case False
    then have "drill t v = ([], t, v, v)"
      by (subst drill.simps) (auto split: gtype.splits)
    moreover have "Kind t \<noteq> KPtr" using False by (auto simp: Kind_def split: gtype.splits)
    ultimately show ?thesis using "1.prems" by auto
  next
    case True
    then obtain t1 where u: "under t = PtrTo t1" by blast
    from hasType_ptr [OF "1.prems"(1) u]
    consider (nil) "v = VPtr None" | (ptr) x where "v = VPtr (Some x)" "hasType t1 x" by blast
    then show ?thesis
    proof cases
      case nil
      show ?thesis
      proof (cases "Kind t1 \<noteq> KStruct")
        case True
        then have "drill t v = ([], t, v, v)"
          using u nil by (subst drill.simps) simp
        moreover have "Kind (Elem t) \<noteq> KStruct" using True u by (simp add: Elem_def)
        ultimately show ?thesis using "1.prems" nil by auto
      next
        case False
        obtain p1 lt1 lv1 x1 where d: "drill t1 (zero t1) = (p1, lt1, lv1, x1)"
          by (cases "drill t1 (zero t1)") auto
        have "drill t v = (DerefStep # p1, lt1, lv1, VPtr (Some x1))"
          using u nil False d by (subst drill.simps) simp
        with "1.prems"(2) have e: "p = DerefStep # p1" "lt = lt1" "lv = lv1" "v1 = VPtr (Some x1)"
          by simp_all
        from "1.IH"(1) [OF u nil refl _ hasType_zero d] False
        have "hasType lt1 lv1 \<and> getPath p1 x1 = Some lv1 \<and>
            (Kind lt1 = KPtr \<longrightarrow> lv1 = VPtr None \<and> Kind (Elem lt1) \<noteq> KStruct)"
          by simp
        then show ?thesis using e by simp
      qed
    next
      case ptr
      obtain p1 lt1 lv1 x1 where d: "drill t1 x = (p1, lt1, lv1, x1)"
        by (cases "drill t1 x") auto
      have "drill t v = (DerefStep # p1, lt1, lv1, VPtr (Some x1))"
        using u ptr d by (subst drill.simps) simp
      with "1.prems"(2) have e: "p = DerefStep # p1" "lt = lt1" "lv = lv1" "v1 = VPtr (Some x1)"
        by simp_all
      from "1.IH"(2) [OF u ptr(1) refl ptr(2) d]
      have "hasType lt1 lv1 \<and> getPath p1 x1 = Some lv1 \<and>
          (Kind lt1 = KPtr \<longrightarrow> lv1 = VPtr None \<and> Kind (Elem lt1) \<noteq> KStruct)" .
      then show ?thesis using e by simp
    qed
  qed
qed


lemma getPath_putPath_append:
  "getPath p v = Some w \<Longrightarrow> getPath (p @ q) (putPath p x v) = getPath q x"
proof (induction p v arbitrary: w rule: getPath.induct)
  case (2 i p vs)
  then show ?case by (auto split: if_splits)
qed auto

lemma diverge_sym: "diverge p q \<Longrightarrow> diverge q p"
  unfolding diverge_def by metis

lemma getPath_putPath_fields:
  "a \<noteq> b \<Longrightarrow> getPath (FieldStep a # p) (putPath (FieldStep b # q) x s) = getPath (FieldStep a # p) s"
  by (cases s) auto

lemma getPath_putPath_prefix:
  assumes "\<And>s. getPath r (putPath r' x s) = getPath r s"
  shows "getPath (c @ r) (putPath (c @ r') x s) = getPath (c @ r) s"
proof (induction c arbitrary: s)
  case Nil
  show ?case using assms by simp
next
  case (Cons st c)
  show ?case
  proof (cases st)
    case (FieldStep n)
    show ?thesis
    proof (cases s)
      case (VStruct vs)
      then show ?thesis using FieldStep Cons.IH by auto
    qed (simp_all add: FieldStep)
  next
    case DerefStep
    show ?thesis
    proof (cases s)
      case (VPtr po)
      then show ?thesis using DerefStep Cons.IH by (cases po) auto
    qed (simp_all add: DerefStep)
  qed
qed

lemma getPath_putPath_diverge:
  assumes "diverge p q"
  shows "getPath p (putPath q x s) = getPath p s"
proof -
  from assms obtain c a b p' q' where p: "p = c @ FieldStep a # p'"
    and q: "q = c @ FieldStep b # q'" and ab: "a \<noteq> b"
    unfolding diverge_def by blast
  show ?thesis unfolding p q
    by (rule getPath_putPath_prefix) (rule getPath_putPath_fields [OF ab])
qed

lemma allDiverge_append:
  "allDiverge (xs @ ys) \<longleftrightarrow>
     allDiverge xs \<and> allDiverge ys \<and> (\<forall>x \<in> set xs. \<forall>y \<in> set ys. diverge x y)"
  by (induction xs) auto

lemma allDiverge_nth:
  assumes "allDiverge ps" and "a < length ps" and "b < length ps" and "a \<noteq> b"
  shows "diverge (ps ! a) (ps ! b)"
proof -
  have less: "\<And>a b. allDiverge ps \<Longrightarrow> a < b \<Longrightarrow> b < length ps \<Longrightarrow> diverge (ps ! a) (ps ! b)"
  proof (induction ps)
    case Nil
    then show ?case by simp
  next
    case (Cons p ps)
    show ?case
    proof (cases a)
      case 0
      with Cons.prems obtain b' where "b = Suc b'" "b' < length ps" by (cases b) auto
      with Cons.prems 0 show ?thesis by auto
    next
      case (Suc a')
      with Cons.prems obtain b' where "b = Suc b'" "a' < b'" "b' < length ps" by (cases b) auto
      with Cons Suc show ?thesis by auto
    qed
  qed
  show ?thesis
  proof (cases "a < b")
    case True
    then show ?thesis using less assms by blast
  next
    case False
    then have "b < a" using assms(4) by simp
    then have "diverge (ps ! b) (ps ! a)" using less assms by blast
    then show ?thesis by (rule diverge_sym)
  qed
qed

lemma extractLoop_Cons_cases:
  assumes "extractLoop e pre i (sf # sfs) (v # vs) = (None, fs, vs')"
  obtains
    (skip) vs_r where "extractLoop e pre (Suc i) sfs vs = (None, fs, vs_r)" and "vs' = v # vs_r"
  | (nested) p lt lv v1 sfs1 vs1 fs1 vs1' fs_r vs_r where
      "drill (fldType sf) v = (p, lt, lv, v1)" and "under lt = StructOf sfs1" and "lv = VStruct vs1"
      and "extractLoop e (pre @ FieldStep i # p) 0 sfs1 vs1 = (None, fs1, vs1')"
      and "extractLoop e pre (Suc i) sfs vs = (None, fs_r, vs_r)"
      and "fs = fs1 @ fs_r" and "vs' = putPath p (VStruct vs1') v1 # vs_r"
  | (leaf) fieldOpts p lt lv v1 fs_r vs_r where
      "parseTag (fldTag sf) = Inr fieldOpts" and "drill (fldType sf) v = (p, lt, lv, v1)"
      and "extractLoop e pre (Suc i) sfs vs = (None, fs_r, vs_r)"
      and "fs = \<lparr>fname = fldName sf, fpath = pre @ FieldStep i # p, ftype = lt,
                   options = fieldOpts\<rparr> # fs_r"
      and "vs' = v1 # vs_r"
proof (cases "\<not> fldExported sf \<or> fldTag sf = ''-''")
  case True
  obtain r fs_r vs_r where x: "extractLoop e pre (Suc i) sfs vs = (r, fs_r, vs_r)"
    by (cases "extractLoop e pre (Suc i) sfs vs") auto
  with assms True have "r = None" "fs_r = fs" "vs' = v # vs_r"
    by (simp_all add: extractLoop.simps)
  with x skip show ?thesis by simp
next
  case False
  note ex = False
  show ?thesis
  proof (cases "parseTag (fldTag sf)")
    case (Inl a)
    with assms ex show ?thesis by (simp add: extractLoop.simps)
  next
    case (Inr fieldOpts)
    obtain p lt lv v1 where d: "drill (fldType sf) v = (p, lt, lv, v1)"
      by (cases "drill (fldType sf) v") auto
    obtain r fs_r vs_r where x: "extractLoop e pre (Suc i) sfs vs = (r, fs_r, vs_r)"
      by (cases "extractLoop e pre (Suc i) sfs vs") auto
    show ?thesis
    proof (cases "Kind lt = KStruct \<and> unmarshalText e lt = None \<and> unmarshalBinary e lt = None")
      case False
      with assms ex Inr d x have "r = None" "fs = \<lparr>fname = fldName sf, fpath = pre @ FieldStep i # p,
          ftype = lt, options = fieldOpts\<rparr> # fs_r" "vs' = v1 # vs_r"
        by (auto simp: extractLoop.simps split: if_splits)
      with Inr d x leaf show ?thesis by simp
    next
      case True
      note st = True
      show ?thesis
      proof (cases "\<exists>sfs1 vs1. under lt = StructOf sfs1 \<and> lv = VStruct vs1")
        case False
        with assms ex Inr d st show ?thesis
          by (auto simp: extractLoop.simps split: gtype.splits gval.splits)
      next
        case True
        then obtain sfs1 vs1 where u: "under lt = StructOf sfs1" "lv = VStruct vs1" by blast
        obtain r1 fs1 vs1' where n: "extractLoop e (pre @ FieldStep i # p) 0 sfs1 vs1 = (r1, fs1, vs1')"
          by (cases "extractLoop e (pre @ FieldStep i # p) 0 sfs1 vs1") auto
        from assms ex Inr d st u n x have "r1 = None \<and> r = None \<and> fs = fs1 @ fs_r \<and>
            vs' = putPath p (VStruct vs1') v1 # vs_r"
          by (cases r1; cases r) (auto simp: extractLoop.simps)
        with d u n x nested show ?thesis by simp
      qed
    qed
  qed
qed


lemma leafAt_shift: "leafAt pre (Suc i) vs d \<Longrightarrow> leafAt pre i (v # vs) d"
  unfolding leafAt_def
proof (elim exE conjE)
  fix j q lv
  assume "fpath d = pre @ FieldStep (Suc i + j) # q" "j < length vs"
    "getPath q (vs ! j) = Some lv"
    "Kind (ftype d) = KPtr \<longrightarrow> lv = VPtr None \<and> Kind (Elem (ftype d)) \<noteq> KStruct"
  then show "\<exists>j q lv. fpath d = pre @ FieldStep (i + j) # q \<and> j < length (v # vs) \<and>
        getPath q ((v # vs) ! j) = Some lv \<and> (Kind (ftype d) = KPtr \<longrightarrow> lv = VPtr None \<and> Kind (Elem (ftype d)) \<noteq> KStruct)"
    by (intro exI [of _ "Suc j"] exI [of _ q] exI [of _ lv]) simp
qed

lemma leafAt_diverge:
  assumes "fpath d = pre @ FieldStep i # q" and "leafAt pre (Suc i) vs d'"
  shows "diverge (fpath d) (fpath d')"
proof -
  from assms(2) obtain j q' where "fpath d' = pre @ FieldStep (Suc i + j) # q'"
    unfolding leafAt_def by blast
  with assms(1) show ?thesis
    unfolding diverge_def
    by (intro exI [of _ pre] exI [of _ i] exI [of _ "Suc i + j"] exI [of _ q] exI [of _ q']) simp
qed

lemma hasTypes_Cons:
  "hasTypes (sf # sfs) (v # vs) \<longleftrightarrow> hasType (fldType sf) v \<and> hasTypes sfs vs"
  by (cases sf) simp

lemma extractLoop_leaves:
  assumes "hasTypes sfs vs" and "extractLoop e pre i sfs vs = (None, fs, vs')"
  shows "(\<forall>d \<in> set fs. leafAt pre i vs' d) \<and> allDiverge (map fpath fs)"
  using assms
proof (induction "tsizes sfs" arbitrary: sfs vs pre i fs vs' rule: less_induct)
  case less
  show ?case
  proof (cases sfs)
    case Nil
    with less.prems show ?thesis by (simp add: extractLoop.simps)
  next
    case (Cons sf sfs')
    with less.prems(1) obtain v vs0 where vs: "vs = v # vs0"
      by (cases sf; cases vs) auto
    from less.prems(1) Cons vs have ty: "hasType (fldType sf) v" "hasTypes sfs' vs0"
      by (simp_all add: hasTypes_Cons)
    have small: "tsizes sfs' < tsizes sfs" using Cons by (simp add: tsizes_Cons)
    from less.prems(2) Cons vs
    have x: "extractLoop e pre i (sf # sfs') (v # vs0) = (None, fs, vs')" by simp
    from x show ?thesis
    proof (cases rule: extractLoop_Cons_cases)
      case (skip vs_r)
      from less.hyps [OF small ty(2) skip(1)]
      have "\<forall>d \<in> set fs. leafAt pre (Suc i) vs_r d" and a: "allDiverge (map fpath fs)"
        by simp_all
      then show ?thesis using skip(2) leafAt_shift by blast
    next
      case (leaf fieldOpts p lt lv v1 fs_r vs_r)
      define d0 where "d0 = \<lparr>fname = fldName sf, fpath = pre @ FieldStep i # p, ftype = lt,
          options = fieldOpts\<rparr>"
      from less.hyps [OF small ty(2) leaf(3)]
      have r: "\<forall>d \<in> set fs_r. leafAt pre (Suc i) vs_r d" and a: "allDiverge (map fpath fs_r)"
        by simp_all
      from drill_typed [OF ty(1) leaf(2)]
      have g: "getPath p v1 = Some lv"
        "Kind lt = KPtr \<longrightarrow> lv = VPtr None \<and> Kind (Elem lt) \<noteq> KStruct" by simp_all
      have l0: "leafAt pre i vs' d0"
        unfolding leafAt_def
        by (intro exI [of _ 0] exI [of _ p] exI [of _ lv]) (simp add: d0_def leaf(5) g)
      have "\<forall>d \<in> set fs_r. diverge (fpath d0) (fpath d)"
        using r leafAt_diverge [of d0 pre i p] by (auto simp: d0_def)
      with a have "allDiverge (map fpath (d0 # fs_r))" by simp
      moreover have "\<forall>d \<in> set (d0 # fs_r). leafAt pre i vs' d"
        using l0 r leaf(5) leafAt_shift by auto
      ultimately show ?thesis using leaf(4) d0_def by simp
    next
      case (nested p lt lv v1 sfs1 vs1 fs1 vs1' fs_r vs_r)
      from less.hyps [OF small ty(2) nested(5)]
      have r: "\<forall>d \<in> set fs_r. leafAt pre (Suc i) vs_r d" and a: "allDiverge (map fpath fs_r)"
        by simp_all
      from drill_typed [OF ty(1) nested(1)]
      have g: "getPath p v1 = Some lv" and tl: "hasType lt lv" by simp_all
      from hasType_struct [OF tl nested(2)] nested(3) have ty1: "hasTypes sfs1 vs1" by simp
      have "tsizes sfs1 < tsizes (sf # sfs')"
        using nested_tsizes [of p "(lt, lv, v1)" sf v lt "(lv, v1)" sfs1 sfs'] nested(1,2) by simp
      then have small1: "tsizes sfs1 < tsizes sfs" using Cons by simp
      from less.hyps [OF small1 ty1 nested(4)]
      have n: "\<forall>d \<in> set fs1. leafAt (pre @ FieldStep i # p) 0 vs1' d"
        and a1: "allDiverge (map fpath fs1)"
        by simp_all
      have inner: "\<forall>d \<in> set fs1. leafAt pre i vs' d \<and> (\<exists>q. fpath d = pre @ FieldStep i # q)"
      proof
        fix d assume "d \<in> set fs1"
        with n obtain j q w where j: "fpath d = (pre @ FieldStep i # p) @ FieldStep (0 + j) # q"
          "j < length vs1'" "getPath q (vs1' ! j) = Some w"
          "Kind (ftype d) = KPtr \<longrightarrow> w = VPtr None \<and> Kind (Elem (ftype d)) \<noteq> KStruct"
          unfolding leafAt_def by blast
        have "getPath (p @ FieldStep j # q) (putPath p (VStruct vs1') v1)
            = getPath (FieldStep j # q) (VStruct vs1')"
          using g by (rule getPath_putPath_append)
        also have "\<dots> = Some w" using j(2,3) by simp
        finally have "getPath (p @ FieldStep j # q) (vs' ! 0) = Some w"
          by (simp add: nested(7))
        moreover have "fpath d = pre @ FieldStep (i + 0) # (p @ FieldStep j # q)"
          using j(1) by simp
        ultimately have "leafAt pre i vs' d"
          unfolding leafAt_def using j(4) nested(7)
          by (intro exI [of _ 0] exI [of _ "p @ FieldStep j # q"] exI [of _ w]) simp
        moreover have "\<exists>q'. fpath d = pre @ FieldStep i # q'" using j(1) by simp
        ultimately show "leafAt pre i vs' d \<and> (\<exists>q. fpath d = pre @ FieldStep i # q)" by simp
      qed
      have cross: "\<forall>x \<in> set (map fpath fs1). \<forall>y \<in> set (map fpath fs_r). diverge x y"
      proof (intro ballI)
        fix x y assume "x \<in> set (map fpath fs1)" "y \<in> set (map fpath fs_r)"
        then obtain d d' where d: "d \<in> set fs1" "x = fpath d" "d' \<in> set fs_r" "y = fpath d'"
          by auto
        from inner d(1) obtain q where q: "fpath d = pre @ FieldStep i # q" by blast
        have "leafAt pre (Suc i) vs_r d'" using r d(3) by simp
        with q have "diverge (fpath d) (fpath d')" by (rule leafAt_diverge)
        then show "diverge x y" using d(2,4) by simp
      qed
      have "allDiverge (map fpath (fs1 @ fs_r))"
        using a a1 cross by (simp add: allDiverge_append)
      moreover have "\<forall>d \<in> set (fs1 @ fs_r). leafAt pre i vs' d"
        using inner r nested(7) leafAt_shift by auto
      ultimately show ?thesis using nested(6) by simp
    qed
  qed
qed


lemma extractFields_leaves:
  assumes "hasType t v" and "extractFields e (Some (t, v)) = (None, fs, VPtr (Some s0))"
  shows "allDiverge (map fpath fs) \<and>
         (\<forall>d \<in> set fs. \<exists>lv. getPath (fpath d) s0 = Some lv \<and>
            (Kind (ftype d) = KPtr \<longrightarrow> lv = VPtr None \<and> Kind (Elem (ftype d)) \<noteq> KStruct))"
proof -
  from assms(2) have k: "Kind t = KPtr"
    by (auto simp: extractFields_def split: if_splits)
  from assms(2) k obtain strct where v: "v = VPtr (Some strct)"
    by (auto simp: extractFields_def split: gval.splits option.splits)
  from assms(2) k v obtain sfs where u: "under (Elem t) = StructOf sfs"
    by (auto simp: extractFields_def split: gtype.splits)
  from assms(2) k v u obtain vs where st: "strct = VStruct vs"
    by (auto simp: extractFields_def split: gval.splits)
  obtain r fs' vs' where x: "extractLoop e [] 0 sfs vs = (r, fs', vs')"
    by (cases "extractLoop e [] 0 sfs vs") auto
  with assms(2) k v u st have r: "r = None" "fs' = fs" "s0 = VStruct vs'"
    by (simp_all add: extractFields_def)
  have "hasType (Elem t) strct"
  proof (cases "under t")
    case (PtrTo t1)
    then have "Elem t = t1" by (simp add: Elem_def)
    with hasType_ptr [OF assms(1) PtrTo] v show ?thesis by simp
  qed (use k in \<open>auto simp: Kind_def split: if_splits\<close>)
  from hasType_struct [OF this u] st have "hasTypes sfs vs" by simp
  from extractLoop_leaves [OF this x [unfolded r]]
  have l: "\<forall>d \<in> set fs. leafAt [] 0 vs' d" and a: "allDiverge (map fpath fs)" by simp_all
  have "\<forall>d \<in> set fs. \<exists>lv. getPath (fpath d) s0 = Some lv \<and>
            (Kind (ftype d) = KPtr \<longrightarrow> lv = VPtr None \<and> Kind (Elem (ftype d)) \<noteq> KStruct)"
  proof
    fix d assume "d \<in> set fs"
    with l obtain j q lv where "fpath d = FieldStep j # q" "j < length vs'"
      "getPath q (vs' ! j) = Some lv"
      "Kind (ftype d) = KPtr \<longrightarrow> lv = VPtr None \<and> Kind (Elem (ftype d)) \<noteq> KStruct"
      unfolding leafAt_def by auto
    then show "\<exists>lv. getPath (fpath d) s0 = Some lv \<and>
            (Kind (ftype d) = KPtr \<longrightarrow> lv = VPtr None \<and> Kind (Elem (ftype d)) \<noteq> KStruct)"
      using r(3) by simp
  qed
  with a show ?thesis by simp
qed

lemma processAt_frame:
  assumes "diverge p (fpath f)" and "processAt e sd val f pOpts s = (r, s')"
  shows "getPath p s' = getPath p s"
  using assms getPath_putPath_diverge [OF assms(1)]
  by (auto simp: processAt_def split: option.splits prod.splits)

lemma fieldStep_skipped: "skipped data f \<Longrightarrow> fieldStep e data pOpts f s = (None, s)"
  by (auto simp: skipped_def fieldStep_def defaultStep_def inputStep_def)

lemma fieldStep_frame:
  assumes "diverge p (fpath f)" and "fieldStep e data pOpts f s = (r, s')"
  shows "getPath p s' = getPath p s"
proof -
  obtain r1 s1 where d: "defaultStep e pOpts f s = (r1, s1)" by (cases "defaultStep e pOpts f s")
  have s1: "getPath p s1 = getPath p s"
    using d processAt_frame [OF assms(1)]
    by (auto simp: defaultStep_def split: if_splits prod.splits option.splits)
  show ?thesis
  proof (cases r1)
    case (Some a)
    with d assms(2) have "s' = s1" by (simp add: fieldStep_def)
    with s1 show ?thesis by simp
  next
    case None
    with d assms(2) have "inputStep e data pOpts f s1 = (r, s')" by (simp add: fieldStep_def)
    then have "getPath p s' = getPath p s1"
      using processAt_frame [OF assms(1)]
      by (auto simp: inputStep_def split: if_splits prod.splits option.splits)
    with s1 show ?thesis by simp
  qed
qed

lemma fieldsLoop_frame:
  assumes "\<forall>d \<in> set ds. skipped data d \<or> diverge p (fpath d)"
    and "fieldsLoop e data pOpts ds s = (r, s')"
  shows "getPath p s' = getPath p s"
  using assms
proof (induction ds arbitrary: s)
  case Nil
  then show ?case by simp
next
  case (Cons d ds)
  obtain r1 s1 where st: "fieldStep e data pOpts d s = (r1, s1)"
    by (cases "fieldStep e data pOpts d s")
  have s1: "getPath p s1 = getPath p s"
  proof (cases "skipped data d")
    case True
    with st show ?thesis by (simp add: fieldStep_skipped)
  next
    case False
    with Cons.prems(1) have "diverge p (fpath d)" by simp
    then show ?thesis using st by (rule fieldStep_frame)
  qed
  show ?case
  proof (cases r1)
    case (Some a)
    with st Cons.prems(2) have "s' = s1" by simp
    with s1 show ?thesis by simp
  next
    case None
    with st Cons.prems(2) have "fieldsLoop e data pOpts ds s1 = (r, s')" by simp
    then have "getPath p s' = getPath p s1" using Cons.IH Cons.prems(1) by simp
    with s1 show ?thesis by simp
  qed
qed

lemma processField_allocates:
  assumes "plainType e t" and "Kind t = KPtr"
  shows "\<exists>x. snd (processField e sd val t (VPtr None) fOpts pOpts) = VPtr (Some x)"
  unfolding processField_plain [OF assms(1)] Let_def
  using assms(2) by (auto split: prod.splits)

text \<open>
  Claim C9, as amended. Take a destination in which no two pointers hold the same address
  (a tree, as \<open>Unmarshal\<close> has it here), well typed, whose flattening succeeds, and a
  flattened field of pointer type with no default and no value for its key in the input.
  Then the pointee is no struct, the pointer is nil after the flattening (which allocates for
  pointers to structs only), and it is nil in the destination that \<open>Unmarshal\<close> leaves,
  whatever it returns: the coercions of the other fields write to separate storage. Storage
  is allocated when a value is coerced into the field: \<open>processField\<close> on the nil pointer
  of a type with no decoding of its own leaves a pointer that is not nil.
\<close>

theorem nil_pointer_stays_nil:
  assumes "hasType t v"
    and "extractFields e (Some (t, v)) = (None, fs, VPtr (Some s0))"
    and "k < length fs" and "Kind (ftype (fs ! k)) = KPtr"
    and "skipped data (fs ! k)"
  shows "Kind (Elem (ftype (fs ! k))) \<noteq> KStruct \<and>
         getPath (fpath (fs ! k)) s0 = Some (VPtr None) \<and>
         (\<exists>s'. snd (Unmarshal e data (Some (t, v)) setParseOpts) = VPtr (Some s') \<and>
            getPath (fpath (fs ! k)) s' = Some (VPtr None)) \<and>
         (plainType e (ftype (fs ! k)) \<longrightarrow>
            (\<forall>sd val fOpts pOpts. \<exists>x.
               snd (processField e sd val (ftype (fs ! k)) (VPtr None) fOpts pOpts) = VPtr (Some x)))"
proof -
  let ?f = "fs ! k"
  from extractFields_leaves [OF assms(1,2)]
  have a: "allDiverge (map fpath fs)"
    and l: "\<forall>d \<in> set fs. \<exists>lv. getPath (fpath d) s0 = Some lv \<and>
            (Kind (ftype d) = KPtr \<longrightarrow> lv = VPtr None \<and> Kind (Elem (ftype d)) \<noteq> KStruct)"
    by simp_all
  have "?f \<in> set fs" using assms(3) by simp
  with l assms(4) have nil0: "getPath (fpath ?f) s0 = Some (VPtr None)"
    and ns: "Kind (Elem (ftype ?f)) \<noteq> KStruct"
    by auto
  have ne: "fs \<noteq> []" using assms(3) by auto
  obtain r s' where lp: "fieldsLoop e data (applyOptions setParseOpts) fs s0 = (r, s')"
    by (cases "fieldsLoop e data (applyOptions setParseOpts) fs s0")
  have u: "Unmarshal e data (Some (t, v)) setParseOpts = (r, VPtr (Some s'))"
    unfolding Unmarshal_flattened [OF assms(2) ne] lp by simp
  have "\<forall>d \<in> set fs. skipped data d \<or> diverge (fpath ?f) (fpath d)"
  proof
    fix d assume "d \<in> set fs"
    then obtain k' where k': "k' < length fs" "d = fs ! k'" by (auto simp: in_set_conv_nth)
    show "skipped data d \<or> diverge (fpath ?f) (fpath d)"
    proof (cases "k' = k")
      case True
      with k' assms(5) show ?thesis by simp
    next
      case False
      from allDiverge_nth [OF a, of k k'] False k' assms(3)
      show ?thesis by simp
    qed
  qed
  from fieldsLoop_frame [OF this lp] nil0
  have "getPath (fpath ?f) s' = Some (VPtr None)" by simp
  with u have "\<exists>s'. snd (Unmarshal e data (Some (t, v)) setParseOpts) = VPtr (Some s') \<and>
            getPath (fpath ?f) s' = Some (VPtr None)"
    by simp
  moreover have "plainType e (ftype ?f) \<longrightarrow>
            (\<forall>sd val fOpts pOpts. \<exists>x.
               snd (processField e sd val (ftype ?f) (VPtr None) fOpts pOpts) = VPtr (Some x))"
    using processField_allocates [OF _ assms(4)] by blast
  ultimately show ?thesis using nil0 ns by simp
qed

theorem nil_pointer_stays_nil_witness:
  "\<exists>s'. snd (Unmarshal exampleEnv (valuesOf [(''genres'', [''drama''])]) (Some filterTarget) [])
            = VPtr (Some s') \<and>
        getPath [FieldStep 0] s' = Some (VPtr None)"
proof -
  define f0 where "f0 = \<lparr>fname = ''NameFilter'', fpath = [FieldStep 0], ftype = PtrTo (Basic KString),
      options = \<lparr>key = ''name_filter'', defaultValue = [], layout = []\<rparr>\<rparr>"
  define f1 where "f1 = \<lparr>fname = ''Genres'', fpath = [FieldStep 1], ftype = SliceOf (Basic KString),
      options = \<lparr>key = ''genres'', defaultValue = [], layout = []\<rparr>\<rparr>"
  have ty: "hasType (fst filterTarget) (snd filterTarget)"
    by (simp add: filterTarget_def)
  have x: "extractFields exampleEnv (Some (fst filterTarget, snd filterTarget))
      = (None, [f0, f1], VPtr (Some (VStruct [VPtr None, VSlice None])))"
    unfolding f0_def f1_def by code_simp
  have k: "(0::nat) < length [f0, f1]" by simp
  have p: "Kind (ftype ([f0, f1] ! 0)) = KPtr" by (simp add: f0_def Kind_def)
  have sk: "skipped (valuesOf [(''genres'', [''drama''])]) ([f0, f1] ! 0)"
    by (simp add: skipped_def f0_def lookupKey_def valuesOf_def)
  from nil_pointer_stays_nil [OF ty x k p sk, of "[]"]
  show ?thesis by (simp add: f0_def)
qed

text \<open>
  Claim C9 as stated fails in a destination with a shared pointee. With
  \<open>type T struct { A *string; B **string }\<close>, \<open>t.B = &t.A\<close> and \<open>t.A\<close> nil, \<open>extractFields\<close>
  goes through the pointer \<open>t.B\<close> and stops at the nil pointer it finds there: the handle of
  the field \<open>B\<close> is the storage of \<open>t.A\<close>. The input has the key \<open>B\<close> only, and \<open>A\<close> has no
  default; \<open>processField\<close> coerces the value of \<open>B\<close> into that storage, and \<open>t.A\<close> is
  allocated (the cell 1). With \<open>t.B\<close> nil instead, \<open>t.A\<close> stays nil.
\<close>

theorem shared_pointee_allocated:
  "load sharedStore (0, [0]) = Some (HPtr None) \<and>
   valuesOf [(''B'', [''x''])] ''A'' = None \<and>
   extractFieldsH noDecoders sharedTarget sharedStore
     = (None,
        [\<lparr>hname = ''A'', haddr = (0, [0]), htype = PtrTo (Basic KString), hoptions = noOptions\<rparr>,
         \<lparr>hname = ''B'', haddr = (0, [0]), htype = PtrTo (Basic KString), hoptions = noOptions\<rparr>],
        sharedStore) \<and>
   UnmarshalH exampleEnv noDecoders (valuesOf [(''B'', [''x''])]) sharedTarget sharedStore []
     = (None, [HStruct [HPtr (Some (1, [])), HPtr (Some (0, [0]))], HString ''x'']) \<and>
   UnmarshalH exampleEnv noDecoders (valuesOf [(''B'', [''x''])]) sharedTarget
       [HStruct [HPtr None, HPtr None]] []
     = (None, [HStruct [HPtr None, HPtr (Some (1, []))], HPtr None])"
  by code_simp

text \<open>
  The test of the package (\<open>TestUnmarshal\<close>, ``all data present''), on the fields of its
  target kept in \<open>testTarget\<close>: the tree and the store give the destination the test expects.
\<close>

lemma unmarshal_test_data:
  "Unmarshal exampleEnv
     (valuesOf [(''aString'', [''apple'']), (''Ptr'', [''pear'']), (''aInt'', [''6'']),
                (''Skip'', [''whatever'']), (''-'', [''not skipped'']),
                (''aMap'', [''key1:value1'', ''key2:value2'']),
                (''items'', [''item1'', ''item2'']), (''Byte'', [''7''])])
     testTarget []
   = (None,
      VPtr (Some (VStruct
        [VString ''apple'', VPtr (Some (VString ''pear'')), VInt 6, VString [],
         VString ''not skipped'',
         VMap (Some [(VString ''key1'', VString ''value1''), (VString ''key2'', VString ''value2'')]),
         VStruct [VSlice (Some [VString ''item1'', VString ''item2''])],
         VStruct [VUint 7]])))"
  by code_simp

lemma unmarshal_test_store:
  "UnmarshalH exampleEnv noDecoders
     (valuesOf [(''aString'', [''apple'']), (''Ptr'', [''pear'']), (''aInt'', [''6'']),
                (''Skip'', [''whatever'']), (''-'', [''not skipped'']),
                (''aMap'', [''key1:value1'', ''key2:value2'']),
                (''items'', [''item1'', ''item2'']), (''Byte'', [''7''])])
     (Some (PtrTo testTargetType, HPtr (Some (0, [])))) [zeroH testTargetType] []
   = (None,
      [HStruct
         [HString ''apple'', HPtr (Some (1, [])), HInt 6, HString [],
          HString ''not skipped'',
          HMap (Some [(HString ''key1'', HString ''value1''), (HString ''key2'', HString ''value2'')]),
          HStruct [HSlice (Some [HString ''item1'', HString ''item2''])],
          HStruct [HUint 7]],
       HString ''pear''])"
  by code_simp

end
